theory Spec2Isabelle
  imports Main
begin

section \<open>Signals, expressions and statements of the hardware description\<close>

text \<open>
  \<^verbatim>\<open>litex/soc/cores/pdm.py\<close> describes a circuit with the Migen combinators
  (\<^verbatim>\<open>Signal\<close>, \<^verbatim>\<open>Cat\<close>, slicing, \<^verbatim>\<open>If\<close>, \<^verbatim>\<open>eq\<close>, \<^verbatim>\<open>self.sync\<close>).
  The combinators are embedded by their meaning: an expression is its width together
  with its value in an environment that gives every signal its current value, and a
  synchronous statement reads the environment before the clock edge and writes the
  one after it.

  A signal object is identified by where it was made: by the caller
  (\<open>External\<close>, with the caller's handle) or by one of the \<^verbatim>\<open>Signal(...)\<close>
  calls of the core, each of which runs at most once per object.
\<close>

datatype sig_id = External nat | Own_out | Own_duty | Own_counter | Csr_storage

record Signal =
  duid :: sig_id
  nbits :: nat
  reset :: int
  reset_less :: bool

datatype error = ValueError string | AttributeError string | TypeError string | IndexError

text \<open>
  \<^verbatim>\<open>Signal(bits, reset=r, reset_less=b)\<close> with an integer reset value: Migen first
  wraps the reset value as \<^verbatim>\<open>Constant(r, (bits, False))\<close>, and \<^verbatim>\<open>Constant\<close> refuses a
  width that is not strictly positive with a \<^verbatim>\<open>TypeError\<close>, before the width check of
  \<^verbatim>\<open>Signal\<close> itself is reached.
\<close>

definition Signal_new :: "sig_id \<Rightarrow> int \<Rightarrow> int \<Rightarrow> bool \<Rightarrow> error + Signal" where
  "Signal_new i bits r rl =
     (if bits \<le> 0 then Inl (TypeError ''Width must be a strictly positive integer'')
      else Inr \<lparr>duid = i, nbits = nat bits, reset = r, reset_less = rl\<rparr>)"

type_synonym env = "sig_id \<Rightarrow> int"

record expr =
  width :: nat
  sem :: "env \<Rightarrow> int"

definition sig :: "Signal \<Rightarrow> expr" where
  "sig s = \<lparr>width = nbits s, sem = (\<lambda>e. e (duid s))\<rparr>"

fun bits_for :: "nat \<Rightarrow> nat" where
  "bits_for n = (if n < 2 then 1 else 1 + bits_for (n div 2))"

definition Constant :: "nat \<Rightarrow> expr" where
  "Constant v = \<lparr>width = bits_for v, sem = (\<lambda>e. int v)\<rparr>"

text \<open>\<^verbatim>\<open>a + b\<close> and \<^verbatim>\<open>a < b\<close> on expressions.\<close>

definition add :: "expr \<Rightarrow> expr \<Rightarrow> expr" where
  "add a b = \<lparr>width = max (width a) (width b) + 1, sem = (\<lambda>e. sem a e + sem b e)\<rparr>"

definition lt :: "expr \<Rightarrow> expr \<Rightarrow> expr" where
  "lt a b = \<lparr>width = 1, sem = (\<lambda>e. if sem a e < sem b e then 1 else 0)\<rparr>"

text \<open>\<^verbatim>\<open>_Slice(v, start, stop)\<close>: the bits \<open>start \<le> k < stop\<close> of \<open>v\<close>.\<close>

definition Slice :: "expr \<Rightarrow> nat \<Rightarrow> nat \<Rightarrow> expr" where
  "Slice v start stop =
     \<lparr>width = stop - start, sem = (\<lambda>e. (sem v e div 2 ^ start) mod 2 ^ (stop - start))\<rparr>"

text \<open>\<^verbatim>\<open>Cat(v0, v1, ...)\<close>: concatenation, the first operand in the low bits.\<close>

fun cat_sem :: "expr list \<Rightarrow> env \<Rightarrow> int" where
  "cat_sem [] e = 0"
| "cat_sem (v # vs) e = sem v e mod 2 ^ width v + 2 ^ width v * cat_sem vs e"

definition Cat :: "expr list \<Rightarrow> expr" where
  "Cat vs = \<lparr>width = sum_list (map width vs), sem = cat_sem vs\<rparr>"

text \<open>
  Python's \<^verbatim>\<open>slice(start, stop, step).indices(n)\<close> (a step of 0, which raises, does
  not occur in the core) and \<^verbatim>\<open>range(start, stop, step)\<close>.
\<close>

definition slice_indices :: "int option \<Rightarrow> int option \<Rightarrow> int option \<Rightarrow> int \<Rightarrow> int \<times> int \<times> int" where
  "slice_indices start stop step n =
     (let s = (case step of None \<Rightarrow> 1 | Some s \<Rightarrow> s);
          lower = (if s < 0 then - 1 else 0);
          upper = (if s < 0 then n - 1 else n);
          clip = (\<lambda>k. if k < 0 then max (k + n) lower else min k upper);
          a = (case start of None \<Rightarrow> (if s < 0 then upper else lower) | Some k \<Rightarrow> clip k);
          b = (case stop of None \<Rightarrow> (if s < 0 then lower else upper) | Some k \<Rightarrow> clip k)
      in (a, b, s))"

definition py_range :: "int \<Rightarrow> int \<Rightarrow> int \<Rightarrow> int list" where
  "py_range start stop step =
     (let len = (if 0 < step then (stop - start + step - 1) div step
                 else (start - stop - step - 1) div (- step))
      in map (\<lambda>k. start + int k * step) [0..<nat len])"

text \<open>
  \<^verbatim>\<open>v[key]\<close> for an integer key and for a slice. With a step other than 1 the slice is
  the concatenation of the single bits \<^verbatim>\<open>v[i]\<close>, \<open>i\<close> running over the range of the
  slice, the first one in the low bit.
\<close>

definition getitem_int :: "expr \<Rightarrow> int \<Rightarrow> error + expr" where
  "getitem_int v key =
     (let n = int (width v) in
      if n \<le> key then Inl IndexError
      else (let k = (if key < 0 then key + n else key) in Inr (Slice v (nat k) (nat k + 1))))"

fun collect :: "(error + 'a) list \<Rightarrow> error + 'a list" where
  "collect [] = Inr []"
| "collect (Inl e # rs) = Inl e"
| "collect (Inr x # rs) = (case collect rs of Inl e \<Rightarrow> Inl e | Inr xs \<Rightarrow> Inr (x # xs))"

definition getitem_slice :: "expr \<Rightarrow> int option \<Rightarrow> int option \<Rightarrow> int option \<Rightarrow> error + expr" where
  "getitem_slice v start stop step =
     (case slice_indices start stop step (int (width v)) of
        (a, b, s) \<Rightarrow>
          if s \<noteq> 1 then
            (case collect (map (getitem_int v) (py_range a b s)) of
               Inl e \<Rightarrow> Inl e
             | Inr bs \<Rightarrow> Inr (Cat bs))
          else Inr (Slice v (nat a) (nat b)))"

text \<open>
  Statements of a synchronous block. Every right-hand side and condition is read in
  the environment \<open>old\<close> before the clock edge; the assignments are collected in
  \<open>new\<close>, a later one winning over an earlier one, and a value is cut to the width of
  its target. The reset input of the clock domain is not modelled: \<open>sync_step\<close> is a
  clock edge with reset released, and \<open>reset\<close> of a signal is its value at the start.
\<close>

type_synonym stmt = "env \<Rightarrow> env \<Rightarrow> env"

definition eq_stmt :: "Signal \<Rightarrow> expr \<Rightarrow> stmt" where
  "eq_stmt t rhs = (\<lambda>old new. new(duid t := sem rhs old mod 2 ^ nbits t))"

definition run_stmts :: "stmt list \<Rightarrow> env \<Rightarrow> env \<Rightarrow> env" where
  "run_stmts ss old new = fold (\<lambda>s acc. s old acc) ss new"

definition If_Else :: "expr \<Rightarrow> stmt list \<Rightarrow> stmt list \<Rightarrow> stmt" where
  "If_Else c t f = (\<lambda>old new. if sem c old \<noteq> 0 then run_stmts t old new else run_stmts f old new)"

definition sync_step :: "stmt list \<Rightarrow> env \<Rightarrow> env" where
  "sync_step ss e = run_stmts ss e e"

section \<open>The PDM core\<close>

text \<open>
  Modelled from the spec: \<^verbatim>\<open>CSRStorage\<close> is defined in
  \<^verbatim>\<open>litex.soc.interconnect.csr\<close>, outside \<^verbatim>\<open>pdm.py\<close>. The spec gives it as one
  read/write register of the given width whose initial value is the given reset value;
  \<open>storage\<close> is the signal that holds the register's value.
\<close>

record CSRStorage =
  csr_size :: nat
  storage :: Signal

definition CSRStorage_new :: "int \<Rightarrow> bool \<Rightarrow> int \<Rightarrow> error + CSRStorage" where
  "CSRStorage_new sz rl r =
     (case Signal_new Csr_storage sz r rl of
        Inl e \<Rightarrow> Inl e
      | Inr s \<Rightarrow> Inr \<lparr>csr_size = nat sz, storage = s\<rparr>)"

text \<open>
  \<^verbatim>\<open>MultiReg(i, o, n=n)\<close>: the synchronizer special, a chain of \<open>n\<close> registers from
  \<open>i\<close> to \<open>o\<close>.
\<close>

record MultiReg =
  mr_i :: Signal
  mr_o :: Signal
  mr_n :: nat

datatype pyval = PNone | PInt int | PStr string | PSig Signal | PCsr CSRStorage | PSyncCD string

text \<open>
  The object under construction: its instance attributes, the statements added with
  \<^verbatim>\<open>self.sync +=\<close> and the specials added with \<^verbatim>\<open>self.specials +=\<close>.
\<close>

record PDM =
  attrs :: "string \<Rightarrow> pyval option"
  sync :: "stmt list"
  specials :: "MultiReg list"

definition setattr :: "PDM \<Rightarrow> string \<Rightarrow> pyval \<Rightarrow> PDM" where
  "setattr self name v = self\<lparr>attrs := (attrs self)(name \<mapsto> v)\<rparr>"

definition sync_add :: "PDM \<Rightarrow> stmt list \<Rightarrow> PDM" where
  "sync_add self ss = self\<lparr>sync := sync self @ ss\<rparr>"

definition specials_add :: "PDM \<Rightarrow> MultiReg list \<Rightarrow> PDM" where
  "specials_add self ms = self\<lparr>specials := specials self @ ms\<rparr>"

text \<open>
  \<^verbatim>\<open>self.sync\<close> is Migen's proxy \<^verbatim>\<open>_ModuleSync\<close>. \<^verbatim>\<open>self.sync += ...\<close> files the
  statements under the clock domain \<^verbatim>\<open>"sys"\<close>: they are the list \<open>sync\<close> of the object.
  Reading an attribute of the proxy, whatever its name, gives the proxy
  \<^verbatim>\<open>_ModuleSyncCD\<close> for the clock domain of that name, here \<open>PSyncCD\<close>; it is an
  object and not a string.
\<close>

definition ModuleSync_getattr :: "string \<Rightarrow> pyval" where
  "ModuleSync_getattr name = PSyncCD name"

text \<open>
  \<^verbatim>\<open>add_csr\<close>. It compares \<^verbatim>\<open>getattr(self.sync, "clock_domains")\<close> with the string
  \<^verbatim>\<open>"sys"\<close>, the clock domain of the register interface. The description text of the register is documentation
  only and is left out. A read of an attribute that is not there raises.
\<close>

definition add_csr :: "PDM \<Rightarrow> error + PDM" where
  "add_csr self =
     (case attrs self ''duty'' of
        None \<Rightarrow> Inl (AttributeError ''duty'')
      | Some dv \<Rightarrow>
          (let self1 = setattr (setattr self ''_duty_csr'' dv) ''duty'' PNone in
           case attrs self1 ''bits'' of
             None \<Rightarrow> Inl (AttributeError ''bits'')
           | Some (PInt bits) \<Rightarrow>
               (case dv of
                  PSig d \<Rightarrow>
                    (case CSRStorage_new bits True (reset d) of
                       Inl e \<Rightarrow> Inl e
                     | Inr csr \<Rightarrow>
                         (let self2 = setattr self1 ''_duty'' (PCsr csr);
                              n = (if ModuleSync_getattr ''clock_domains'' = PStr ''sys'' then 0 else 2)
                          in Inr (specials_add self2
                                    [\<lparr>mr_i = storage csr, mr_o = d, mr_n = n\<rparr>])))
                | _ \<Rightarrow> Inl (AttributeError ''reset''))
           | Some _ \<Rightarrow> Inl (TypeError ''bits'')))"

text \<open>
  The constructor \<^verbatim>\<open>PDM.__init__\<close>, block by block. Each block returns the object
  so far together with the local variable it binds.

  \<^verbatim>\<open>if out is None: self.out = out = Signal()\<close>
\<close>

definition init_out :: "PDM \<Rightarrow> Signal option \<Rightarrow> error + PDM \<times> Signal" where
  "init_out self out =
     (case out of
        None \<Rightarrow>
          (case Signal_new Own_out 1 0 False of
             Inl e \<Rightarrow> Inl e
           | Inr s \<Rightarrow> Inr (setattr self ''out'' (PSig s), s))
      | Some s \<Rightarrow> Inr (self, s))"

text \<open>
  \<^verbatim>\<open>bits_or_duty\<close> is either an integer width or a signal. The block binds
  \<^verbatim>\<open>bits\<close> and \<^verbatim>\<open>duty\<close>.
\<close>

datatype bits_or_duty = Bits int | Duty Signal

definition init_duty ::
  "PDM \<Rightarrow> bits_or_duty \<Rightarrow> int \<Rightarrow> bool \<Rightarrow> error + PDM \<times> int \<times> Signal" where
  "init_duty self bod default_duty with_csr =
     (case bod of
        Duty d \<Rightarrow>
          if default_duty \<noteq> 0 then
            Inl (ValueError ''default_duty can not be set when external duty is supplied'')
          else if with_csr then
            Inl (ValueError ''with_csr can not be set when external duty is supplied'')
          else Inr (setattr self ''duty'' (PSig d), int (nbits d), d)
      | Bits bits \<Rightarrow>
          (let self1 = setattr self ''bits'' (PInt bits) in
           case Signal_new Own_duty bits default_duty False of
             Inl e \<Rightarrow> Inl e
           | Inr duty \<Rightarrow>
               (let self2 = setattr self1 ''duty'' (PSig duty) in
                if with_csr then
                  (case add_csr self2 of
                     Inl e \<Rightarrow> Inl e
                   | Inr self3 \<Rightarrow> Inr (self3, bits, duty))
                else Inr (self2, bits, duty))))"

text \<open>
  The counter: made and incremented by the core when none is given, checked and taken
  over otherwise. The block binds \<^verbatim>\<open>self.counter\<close>. The text of the last error holds
  the decimal form of \<^verbatim>\<open>bits\<close>.
\<close>

fun digits :: "nat \<Rightarrow> string" where
  "digits n = (if n < 10 then [char_of (48 + n)] else digits (n div 10) @ [char_of (48 + n mod 10)])"

definition str_int :: "int \<Rightarrow> string" where
  "str_int k = (if k < 0 then CHR ''-'' # digits (nat (- k)) else digits (nat k))"

definition init_counter :: "PDM \<Rightarrow> int \<Rightarrow> pyval \<Rightarrow> error + PDM \<times> Signal" where
  "init_counter self bits counter =
     (case counter of
        PNone \<Rightarrow>
          (case Signal_new Own_counter bits 0 True of
             Inl e \<Rightarrow> Inl e
           | Inr c \<Rightarrow>
               Inr (sync_add (setattr self ''counter'' (PSig c))
                      [eq_stmt c (add (sig c) (Constant 1))], c))
      | PSig c \<Rightarrow>
          if int (nbits c) < bits then Inl (ValueError (''counter nbits < '' @ str_int bits))
          else Inr (setattr self ''counter'' (PSig c), c)
      | _ \<Rightarrow> Inl (ValueError ''counter must be a Signal''))"

text \<open>
  The comparator:
  \<^verbatim>\<open>If(self.counter[bits-1::-1] < duty, out.eq(1)).Else(out.eq(0))\<close>.
\<close>

definition init_compare :: "PDM \<Rightarrow> int \<Rightarrow> Signal \<Rightarrow> Signal \<Rightarrow> Signal \<Rightarrow> error + PDM" where
  "init_compare self bits counter duty out =
     (case getitem_slice (sig counter) (Some (bits - 1)) None (Some (- 1)) of
        Inl e \<Rightarrow> Inl e
      | Inr reversed \<Rightarrow>
          Inr (sync_add self
                 [If_Else (lt reversed (sig duty))
                    [eq_stmt out (Constant 1)]
                    [eq_stmt out (Constant 0)]]))"

text \<open>
  The local variables of the constructor when it returns; the theorems below name the
  signals of the circuit through them.
\<close>

record locals =
  l_out :: Signal
  l_bits :: int
  l_duty :: Signal
  l_counter :: Signal

definition PDM_init ::
  "Signal option \<Rightarrow> bits_or_duty \<Rightarrow> int \<Rightarrow> pyval \<Rightarrow> bool \<Rightarrow> error + PDM \<times> locals" where
  "PDM_init out bod default_duty counter with_csr =
     (case init_out \<lparr>attrs = Map.empty, sync = [], specials = []\<rparr> out of
        Inl e \<Rightarrow> Inl e
      | Inr (self1, out1) \<Rightarrow>
     (case init_duty self1 bod default_duty with_csr of
        Inl e \<Rightarrow> Inl e
      | Inr (self2, bits, duty) \<Rightarrow>
     (case init_counter self2 bits counter of
        Inl e \<Rightarrow> Inl e
      | Inr (self3, counter1) \<Rightarrow>
     (case init_compare self3 bits counter1 duty out1 of
        Inl e \<Rightarrow> Inl e
      | Inr self4 \<Rightarrow>
          Inr (self4, \<lparr>l_out = out1, l_bits = bits, l_duty = duty, l_counter = counter1\<rparr>)))))"

text \<open>
  The reversal of the low \<open>bits\<close> bits as the specification words it: bit \<open>i\<close> of the
  result is bit \<open>bits - 1 - i\<close> of the counter.
\<close>

definition bitreverse :: "int \<Rightarrow> nat \<Rightarrow> int" where
  "bitreverse c bits = (\<Sum>i<bits. if bit c (bits - 1 - i) then 2 ^ i else 0)"

text \<open>
  A signal handed to the constructor by its caller: Migen has given it a strictly
  positive width, and it is none of the signals the core makes itself.
\<close>

definition supplied :: "Signal \<Rightarrow> bool" where
  "supplied s \<longleftrightarrow> 0 < nbits s \<and> (case duid s of External h \<Rightarrow> True | _ \<Rightarrow> False)"

definition well_formed :: "Signal option \<Rightarrow> bits_or_duty \<Rightarrow> pyval \<Rightarrow> bool" where
  "well_formed out bod counter \<longleftrightarrow>
     (case out of None \<Rightarrow> True | Some s \<Rightarrow> supplied s) \<and>
     (case bod of Bits b \<Rightarrow> True | Duty s \<Rightarrow> supplied s) \<and>
     (case counter of PSig s \<Rightarrow> supplied s | _ \<Rightarrow> True)"

section \<open>The reversed slice of the counter\<close>

lemma collect_map_Inr:
  "(\<And>x. x \<in> set xs \<Longrightarrow> f x = Inr (g x)) \<Longrightarrow> collect (map f xs) = Inr (map g xs)"
  by (induction xs) simp_all

lemma reversed_indices:
  assumes "1 \<le> bits" "bits \<le> n"
  shows "slice_indices (Some (bits - 1)) None (Some (- 1)) n = (bits - 1, - 1, - 1)"
  using assms by (simp add: slice_indices_def Let_def)

lemma reversed_range:
  "py_range (int b - 1) (- 1) (- 1) = map (\<lambda>k. int b - 1 - int k) [0..<b]"
  by (simp add: py_range_def)

lemma getitem_int_in_range:
  "k < width v \<Longrightarrow> getitem_int v (int k) = Inr (Slice v k (k + 1))"
  by (simp add: getitem_int_def Let_def)

lemma getitem_reversed:
  assumes "1 \<le> b" "b \<le> nbits c"
  shows "getitem_slice (sig c) (Some (int b - 1)) None (Some (- 1)) =
         Inr (Cat (map (\<lambda>k. Slice (sig c) (b - 1 - k) (b - 1 - k + 1)) [0..<b]))"
proof -
  have idx: "slice_indices (Some (int b - 1)) None (Some (- 1)) (int (width (sig c))) = (int b - 1, - 1, - 1)"
    using assms by (intro reversed_indices) (simp_all add: sig_def)
  have "collect (map (getitem_int (sig c)) (map (\<lambda>k. int b - 1 - int k) [0..<b])) =
        Inr (map (\<lambda>k. Slice (sig c) (b - 1 - k) (b - 1 - k + 1)) [0..<b])"
    unfolding map_map
  proof (rule collect_map_Inr)
    fix k assume "k \<in> set [0..<b]"
    then have k: "k < b" by simp
    then have "int b - 1 - int k = int (b - 1 - k)" by simp
    moreover have "b - 1 - k < width (sig c)" using k assms by (simp add: sig_def)
    ultimately show "(getitem_int (sig c) \<circ> (\<lambda>k. int b - 1 - int k)) k = Inr (Slice (sig c) (b - 1 - k) (b - 1 - k + 1))"
      by (simp add: getitem_int_in_range del: of_nat_diff)
  qed
  then show ?thesis
    by (simp add: getitem_slice_def idx reversed_range)
qed

lemma cat_sem_bits:
  "cat_sem (map (\<lambda>k. Slice v (f k) (f k + 1)) ks) e =
   horner_sum of_bool 2 (map (\<lambda>k. bit (sem v e) (f k)) ks)"
proof (induction ks)
  case Nil
  show ?case by simp
next
  case (Cons k ks)
  have "(sem v e div 2 ^ f k) mod 2 = of_bool (bit (sem v e) (f k))"
    by (simp add: bit_iff_odd mod_2_eq_odd)
  with Cons show ?case by (simp add: Slice_def)
qed

lemma bitreverse_horner:
  "bitreverse c b = horner_sum of_bool 2 (map (\<lambda>k. bit c (b - 1 - k)) [0..<b])"
  unfolding bitreverse_def horner_sum_eq_sum
  by (rule sum.cong) (simp_all add: lessThan_atLeast0)

lemma bit_bitreverse: "bit (bitreverse c b) i \<longleftrightarrow> i < b \<and> bit c (b - 1 - i)"
  by (auto simp add: bitreverse_horner bit_horner_sum_bit_iff)

lemma bitreverse_nonneg: "0 \<le> bitreverse c b"
  by (simp add: bitreverse_horner horner_sum_nonnegative)

lemma bitreverse_less: "bitreverse c b < 2 ^ b"
  using horner_sum_bound [of "map (\<lambda>k. bit c (b - 1 - k)) [0..<b]", where ?'a = int]
  by (simp add: bitreverse_horner)

lemma bitreverse_involution:
  assumes "0 \<le> c" "c < 2 ^ b"
  shows "bitreverse (bitreverse c b) b = c"
proof (rule bit_eqI)
  fix i
  have "take_bit b c = c" using assms by (simp add: take_bit_int_eq_self)
  then have "bit c i \<longleftrightarrow> i < b \<and> bit c i"
    by (metis bit_take_bit_iff)
  moreover have "i < b \<Longrightarrow> b - 1 - (b - 1 - i) = i" by simp
  ultimately show "bit (bitreverse (bitreverse c b) b) i \<longleftrightarrow> bit c i"
    by (auto simp add: bit_bitreverse)
qed

lemma bitreverse_ones: "bitreverse (2 ^ b - 1) b = 2 ^ b - 1"
proof (rule bit_eqI)
  fix i
  have ones: "bit (2 ^ b - 1 :: int) k \<longleftrightarrow> k < b" for k
    by (simp add: bit_mask_iff flip: mask_eq_exp_minus_1)
  have "i < b \<Longrightarrow> b - 1 - i < b" by simp
  then show "bit (bitreverse (2 ^ b - 1) b) i \<longleftrightarrow> bit (2 ^ b - 1 :: int) i"
    unfolding bit_bitreverse ones by blast
qed

lemma bitreverse_max_iff:
  assumes "0 \<le> c" "c < 2 ^ b"
  shows "\<not> bitreverse c b < 2 ^ b - 1 \<longleftrightarrow> c = 2 ^ b - 1"
proof
  assume "\<not> bitreverse c b < 2 ^ b - 1"
  with bitreverse_less [of c b] have top: "bitreverse c b = 2 ^ b - 1" by simp
  have "c = bitreverse (bitreverse c b) b"
    using assms by (simp only: bitreverse_involution)
  also have "\<dots> = bitreverse (2 ^ b - 1) b"
    by (simp only: top)
  also have "\<dots> = 2 ^ b - 1"
    by (rule bitreverse_ones)
  finally show "c = 2 ^ b - 1" .
next
  assume "c = 2 ^ b - 1"
  then show "\<not> bitreverse c b < 2 ^ b - 1" by (simp add: bitreverse_ones)
qed

lemma card_bitreverse_less:
  assumes "0 \<le> d" "d \<le> 2 ^ b"
  shows "card {c. 0 \<le> c \<and> c < 2 ^ b \<and> bitreverse c b < d} = nat d"
proof -
  have "{c. 0 \<le> c \<and> c < 2 ^ b \<and> bitreverse c b < d} = (\<lambda>r. bitreverse r b) ` {0..<d}"
  proof (intro set_eqI iffI)
    fix c assume "c \<in> {c. 0 \<le> c \<and> c < 2 ^ b \<and> bitreverse c b < d}"
    then have c: "0 \<le> c" "c < 2 ^ b" "bitreverse c b < d" by simp_all
    then have "bitreverse c b \<in> {0..<d}" by (simp add: bitreverse_nonneg)
    moreover have "c = bitreverse (bitreverse c b) b" using c by (simp add: bitreverse_involution)
    ultimately show "c \<in> (\<lambda>r. bitreverse r b) ` {0..<d}" by (rule rev_image_eqI)
  next
    fix c assume "c \<in> (\<lambda>r. bitreverse r b) ` {0..<d}"
    then obtain r where r: "0 \<le> r" "r < d" "c = bitreverse r b" by auto
    with assms have "bitreverse c b = r" by (simp add: bitreverse_involution)
    with r show "c \<in> {c. 0 \<le> c \<and> c < 2 ^ b \<and> bitreverse c b < d}"
      by (simp add: bitreverse_nonneg bitreverse_less)
  qed
  moreover have "inj_on (\<lambda>r. bitreverse r b) {0..<d}"
  proof (rule inj_on_inverseI)
    fix r assume "r \<in> {0..<d}"
    with assms show "bitreverse (bitreverse r b) b = r" by (simp add: bitreverse_involution)
  qed
  ultimately show ?thesis by (simp add: card_image)
qed

section \<open>What a successful construction has built\<close>

lemma init_out_Inr:
  assumes "init_out self out = Inr (s1, o1)"
  shows "sync s1 = sync self" "specials s1 = specials self"
    "out = Some s \<Longrightarrow> o1 = s \<and> attrs s1 = attrs self"
    "out = None \<Longrightarrow> o1 = \<lparr>duid = Own_out, nbits = 1, reset = 0, reset_less = False\<rparr>
        \<and> attrs s1 = (attrs self)(''out'' \<mapsto> PSig o1)"
  using assms
  by (auto simp add: init_out_def Signal_new_def setattr_def split: option.splits)

lemma attrs_setattr: "attrs (setattr s n v) m = (if m = n then Some v else attrs s m)"
  by (simp add: setattr_def)

lemma sync_setattr: "sync (setattr s n v) = sync s"
  by (simp add: setattr_def)

lemma specials_setattr: "specials (setattr s n v) = specials s"
  by (simp add: setattr_def)

lemma add_csr_Inr:
  assumes "add_csr self = Inr s1"
  shows "sync s1 = sync self"
    "\<exists>d b. attrs self ''duty'' = Some (PSig d) \<and> attrs self ''bits'' = Some (PInt b) \<and> 0 < b
       \<and> attrs s1 = (attrs self)(''_duty_csr'' \<mapsto> PSig d, ''duty'' \<mapsto> PNone,
            ''_duty'' \<mapsto> PCsr \<lparr>csr_size = nat b, storage = \<lparr>duid = Csr_storage, nbits = nat b, reset = reset d, reset_less = True\<rparr>\<rparr>)
       \<and> specials s1 = specials self @ [\<lparr>mr_i = \<lparr>duid = Csr_storage, nbits = nat b, reset = reset d, reset_less = True\<rparr>, mr_o = d, mr_n = 2\<rparr>]"
proof -
  from assms obtain dv where dv: "attrs self ''duty'' = Some dv"
    by (cases "attrs self ''duty''") (simp_all add: add_csr_def)
  define self1 where "self1 = setattr (setattr self ''_duty_csr'' dv) ''duty'' PNone"
  from assms dv obtain b where b: "attrs self ''bits'' = Some (PInt b)"
    by (auto simp add: add_csr_def Let_def attrs_setattr split: option.splits pyval.splits)
  from assms dv b obtain d where d: "dv = PSig d"
    by (cases dv) (simp_all add: add_csr_def Let_def attrs_setattr)
  from assms dv b d have pos: "0 < b"
    by (simp add: add_csr_def Let_def attrs_setattr CSRStorage_new_def Signal_new_def split: if_splits)
  from assms dv b d pos have s1: "s1 = specials_add (setattr self1 ''_duty'' (PCsr \<lparr>csr_size = nat b, storage = \<lparr>duid = Csr_storage, nbits = nat b, reset = reset d, reset_less = True\<rparr>\<rparr>))
       [\<lparr>mr_i = \<lparr>duid = Csr_storage, nbits = nat b, reset = reset d, reset_less = True\<rparr>, mr_o = d, mr_n = 2\<rparr>]"
    by (simp add: add_csr_def Let_def attrs_setattr CSRStorage_new_def Signal_new_def self1_def
        ModuleSync_getattr_def)
  show "sync s1 = sync self"
    by (simp add: s1 self1_def specials_add_def setattr_def)
  have "attrs s1 = (attrs self)(''_duty_csr'' \<mapsto> PSig d, ''duty'' \<mapsto> PNone,
            ''_duty'' \<mapsto> PCsr \<lparr>csr_size = nat b, storage = \<lparr>duid = Csr_storage, nbits = nat b, reset = reset d, reset_less = True\<rparr>\<rparr>)"
    by (simp add: s1 self1_def specials_add_def setattr_def d)
  moreover have "specials s1 = specials self @ [\<lparr>mr_i = \<lparr>duid = Csr_storage, nbits = nat b, reset = reset d, reset_less = True\<rparr>, mr_o = d, mr_n = 2\<rparr>]"
    by (simp add: s1 self1_def specials_add_def setattr_def)
  ultimately show "\<exists>d b. attrs self ''duty'' = Some (PSig d) \<and> attrs self ''bits'' = Some (PInt b) \<and> 0 < b
       \<and> attrs s1 = (attrs self)(''_duty_csr'' \<mapsto> PSig d, ''duty'' \<mapsto> PNone,
            ''_duty'' \<mapsto> PCsr \<lparr>csr_size = nat b, storage = \<lparr>duid = Csr_storage, nbits = nat b, reset = reset d, reset_less = True\<rparr>\<rparr>)
       \<and> specials s1 = specials self @ [\<lparr>mr_i = \<lparr>duid = Csr_storage, nbits = nat b, reset = reset d, reset_less = True\<rparr>, mr_o = d, mr_n = 2\<rparr>]"
    using dv b d pos by blast
qed

lemma init_duty_Inr:
  assumes "init_duty self bod dd csr = Inr (s2, bits, duty)"
  shows "sync s2 = sync self" "bits = int (nbits duty)"
    "bod = Duty d \<Longrightarrow> dd = 0 \<and> \<not> csr \<and> duty = d \<and> attrs s2 = (attrs self)(''duty'' \<mapsto> PSig d)
        \<and> specials s2 = specials self"
    "bod = Bits b \<Longrightarrow> 0 < b \<and> bits = b \<and> duty = \<lparr>duid = Own_duty, nbits = nat b, reset = dd, reset_less = False\<rparr>"
    "bod = Bits b \<Longrightarrow> \<not> csr \<Longrightarrow> attrs s2 = (attrs self)(''bits'' \<mapsto> PInt b, ''duty'' \<mapsto> PSig duty)
        \<and> specials s2 = specials self"
    "bod = Bits b \<Longrightarrow> csr \<Longrightarrow>
        attrs s2 = (attrs self)(''bits'' \<mapsto> PInt b, ''_duty_csr'' \<mapsto> PSig duty, ''duty'' \<mapsto> PNone,
            ''_duty'' \<mapsto> PCsr \<lparr>csr_size = nat b, storage = \<lparr>duid = Csr_storage, nbits = nat b, reset = dd, reset_less = True\<rparr>\<rparr>)
        \<and> specials s2 = specials self @ [\<lparr>mr_i = \<lparr>duid = Csr_storage, nbits = nat b, reset = dd, reset_less = True\<rparr>,
              mr_o = duty, mr_n = 2\<rparr>]"
proof -
  show "sync s2 = sync self"
  proof (cases bod)
    case (Duty x)
    with assms show ?thesis
      by (auto simp add: init_duty_def sync_setattr split: if_splits)
  next
    case (Bits x)
    with assms show ?thesis
      by (auto simp add: init_duty_def Let_def Signal_new_def sync_setattr
          split: if_splits sum.splits dest!: add_csr_Inr(1))
  qed
  show "bits = int (nbits duty)"
  proof (cases bod)
    case (Duty x)
    with assms show ?thesis
      by (auto simp add: init_duty_def split: if_splits)
  next
    case (Bits x)
    with assms show ?thesis
      by (auto simp add: init_duty_def Let_def Signal_new_def split: if_splits sum.splits)
  qed
  show "bod = Duty d \<Longrightarrow> dd = 0 \<and> \<not> csr \<and> duty = d \<and> attrs s2 = (attrs self)(''duty'' \<mapsto> PSig d)
        \<and> specials s2 = specials self"
    using assms by (auto simp add: init_duty_def setattr_def split: if_splits)
  show "bod = Bits b \<Longrightarrow> 0 < b \<and> bits = b \<and> duty = \<lparr>duid = Own_duty, nbits = nat b, reset = dd, reset_less = False\<rparr>"
    using assms by (auto simp add: init_duty_def Let_def Signal_new_def split: if_splits sum.splits)
  show "bod = Bits b \<Longrightarrow> \<not> csr \<Longrightarrow> attrs s2 = (attrs self)(''bits'' \<mapsto> PInt b, ''duty'' \<mapsto> PSig duty)
        \<and> specials s2 = specials self"
    using assms by (auto simp add: init_duty_def Let_def Signal_new_def setattr_def split: if_splits)
  show "attrs s2 = (attrs self)(''bits'' \<mapsto> PInt b, ''_duty_csr'' \<mapsto> PSig duty, ''duty'' \<mapsto> PNone,
            ''_duty'' \<mapsto> PCsr \<lparr>csr_size = nat b, storage = \<lparr>duid = Csr_storage, nbits = nat b, reset = dd, reset_less = True\<rparr>\<rparr>)
        \<and> specials s2 = specials self @ [\<lparr>mr_i = \<lparr>duid = Csr_storage, nbits = nat b, reset = dd, reset_less = True\<rparr>,
              mr_o = duty, mr_n = 2\<rparr>]"
    if bod: "bod = Bits b" and csr: "csr"
  proof -
    define duty0 where "duty0 = \<lparr>duid = Own_duty, nbits = nat b, reset = dd, reset_less = False\<rparr>"
    define self2 where "self2 = setattr (setattr self ''bits'' (PInt b)) ''duty'' (PSig duty0)"
    from assms bod csr have pos: "0 < b" and duty: "duty = duty0" and ok: "add_csr self2 = Inr s2"
      by (auto simp add: init_duty_def Let_def Signal_new_def duty0_def self2_def split: if_splits sum.splits)
    from add_csr_Inr(2) [OF ok] obtain d' b' where
      "attrs self2 ''duty'' = Some (PSig d')" "attrs self2 ''bits'' = Some (PInt b')"
      and a: "attrs s2 = (attrs self2)(''_duty_csr'' \<mapsto> PSig d', ''duty'' \<mapsto> PNone,
            ''_duty'' \<mapsto> PCsr \<lparr>csr_size = nat b', storage = \<lparr>duid = Csr_storage, nbits = nat b', reset = reset d', reset_less = True\<rparr>\<rparr>)"
      and s: "specials s2 = specials self2 @ [\<lparr>mr_i = \<lparr>duid = Csr_storage, nbits = nat b', reset = reset d', reset_less = True\<rparr>, mr_o = d', mr_n = 2\<rparr>]"
      by blast
    then have eqs: "d' = duty0" "b' = b"
      by (simp_all add: self2_def attrs_setattr)
    have "attrs self2 = (attrs self)(''bits'' \<mapsto> PInt b, ''duty'' \<mapsto> PSig duty0)"
      by (simp add: self2_def setattr_def)
    with a s eqs duty show ?thesis
      by (simp add: self2_def specials_setattr duty0_def fun_upd_twist)
  qed
qed

lemma init_counter_Inr:
  assumes "init_counter self bits counter = Inr (s3, c)"
  shows "specials s3 = specials self" "attrs s3 = (attrs self)(''counter'' \<mapsto> PSig c)"
    "bits \<le> int (nbits c)"
    "counter = PNone \<Longrightarrow> 0 < bits \<and> c = \<lparr>duid = Own_counter, nbits = nat bits, reset = 0, reset_less = True\<rparr>
        \<and> sync s3 = sync self @ [eq_stmt c (add (sig c) (Constant 1))]"
    "counter \<noteq> PNone \<Longrightarrow> counter = PSig c \<and> sync s3 = sync self"
  using assms
  by (auto simp add: init_counter_def Signal_new_def setattr_def sync_add_def
      split: pyval.splits if_splits)

lemma init_compare_Inr:
  assumes "init_compare self bits counter duty out = Inr s4"
  shows "attrs s4 = attrs self" "specials s4 = specials self"
    "\<exists>r. getitem_slice (sig counter) (Some (bits - 1)) None (Some (- 1)) = Inr r
       \<and> sync s4 = sync self @ [If_Else (lt r (sig duty)) [eq_stmt out (Constant 1)] [eq_stmt out (Constant 0)]]"
  using assms
  by (auto simp add: init_compare_def sync_add_def split: sum.splits)

lemma sem_reversed:
  assumes "1 \<le> bits" "bits \<le> int (nbits c)"
    and "getitem_slice (sig c) (Some (bits - 1)) None (Some (- 1)) = Inr r"
  shows "sem r e = bitreverse (e (duid c)) (nat bits)"
proof -
  define b where "b = nat bits"
  with assms have b: "1 \<le> b" "b \<le> nbits c" "bits = int b" by simp_all
  from assms(3) have "r = Cat (map (\<lambda>k. Slice (sig c) (b - 1 - k) (b - 1 - k + 1)) [0..<b])"
    unfolding b(3) by (simp add: getitem_reversed [OF b(1,2)])
  then have "sem r e = cat_sem (map (\<lambda>k. Slice (sig c) (b - 1 - k) (b - 1 - k + 1)) [0..<b]) e"
    by (simp only: Cat_def expr.simps)
  also have "\<dots> = horner_sum of_bool 2 (map (\<lambda>k. bit (sem (sig c) e) (b - 1 - k)) [0..<b])"
    by (rule cat_sem_bits)
  finally show ?thesis
    by (simp add: bitreverse_horner sig_def b_def)
qed

lemma step_comparator:
  assumes "0 < nbits out"
  shows "sync_step (ss @ [If_Else (lt r (sig duty)) [eq_stmt out (Constant 1)] [eq_stmt out (Constant 0)]]) e (duid out)
     = (if sem r e < e (duid duty) then 1 else 0)"
proof -
  have "(1::int) mod 2 ^ nbits out = 1"
    using assms by simp
  then show ?thesis
    by (simp add: sync_step_def run_stmts_def If_Else_def lt_def eq_stmt_def Constant_def sig_def)
qed

lemma PDM_init_blocks:
  assumes "PDM_init out bod dd counter csr = Inr (p, fr)"
  obtains s1 s2 s3 where
    "init_out \<lparr>attrs = Map.empty, sync = [], specials = []\<rparr> out = Inr (s1, l_out fr)"
    "init_duty s1 bod dd csr = Inr (s2, l_bits fr, l_duty fr)"
    "init_counter s2 (l_bits fr) counter = Inr (s3, l_counter fr)"
    "init_compare s3 (l_bits fr) (l_counter fr) (l_duty fr) (l_out fr) = Inr p"
  using assms
  by (auto simp add: PDM_init_def split: sum.splits)

lemma supplied_D: "supplied s \<Longrightarrow> 0 < nbits s \<and> duid s \<noteq> Own_out \<and> duid s \<noteq> Own_duty
    \<and> duid s \<noteq> Own_counter \<and> duid s \<noteq> Csr_storage"
  by (auto simp add: supplied_def split: sig_id.splits)

lemma PDM_init_locals:
  assumes "PDM_init out bod dd counter csr = Inr (p, fr)"
  shows "l_bits fr = int (nbits (l_duty fr))" "l_bits fr \<le> int (nbits (l_counter fr))"
    "out = None \<Longrightarrow> l_out fr = \<lparr>duid = Own_out, nbits = 1, reset = 0, reset_less = False\<rparr>"
    "out = Some s \<Longrightarrow> l_out fr = s"
    "bod = Duty d \<Longrightarrow> l_duty fr = d \<and> dd = 0 \<and> \<not> csr"
    "bod = Bits b \<Longrightarrow> 0 < b \<and> l_bits fr = b \<and>
       l_duty fr = \<lparr>duid = Own_duty, nbits = nat b, reset = dd, reset_less = False\<rparr>"
    "counter = PNone \<Longrightarrow> 0 < l_bits fr \<and>
       l_counter fr = \<lparr>duid = Own_counter, nbits = nat (l_bits fr), reset = 0, reset_less = True\<rparr>"
    "counter \<noteq> PNone \<Longrightarrow> counter = PSig (l_counter fr)"
proof -
  from assms obtain s1 s2 s3 where
    o: "init_out \<lparr>attrs = Map.empty, sync = [], specials = []\<rparr> out = Inr (s1, l_out fr)" and
    d: "init_duty s1 bod dd csr = Inr (s2, l_bits fr, l_duty fr)" and
    c: "init_counter s2 (l_bits fr) counter = Inr (s3, l_counter fr)"
    by (rule PDM_init_blocks)
  show "l_bits fr = int (nbits (l_duty fr))" by (rule init_duty_Inr(2) [OF d])
  show "l_bits fr \<le> int (nbits (l_counter fr))" by (rule init_counter_Inr(3) [OF c])
  show "out = None \<Longrightarrow> l_out fr = \<lparr>duid = Own_out, nbits = 1, reset = 0, reset_less = False\<rparr>"
    using init_out_Inr(4) [OF o] by simp
  show "out = Some s \<Longrightarrow> l_out fr = s"
    using init_out_Inr(3) [OF o] by simp
  show "bod = Duty d \<Longrightarrow> l_duty fr = d \<and> dd = 0 \<and> \<not> csr"
    using init_duty_Inr(3) [OF d] by simp
  show "bod = Bits b \<Longrightarrow> 0 < b \<and> l_bits fr = b \<and>
       l_duty fr = \<lparr>duid = Own_duty, nbits = nat b, reset = dd, reset_less = False\<rparr>"
    using init_duty_Inr(4) [OF d] by simp
  show "counter = PNone \<Longrightarrow> 0 < l_bits fr \<and>
       l_counter fr = \<lparr>duid = Own_counter, nbits = nat (l_bits fr), reset = 0, reset_less = True\<rparr>"
    using init_counter_Inr(4) [OF c] by simp
  show "counter \<noteq> PNone \<Longrightarrow> counter = PSig (l_counter fr)"
    using init_counter_Inr(5) [OF c] by simp
qed

lemma PDM_init_sync:
  assumes "PDM_init out bod dd counter csr = Inr (p, fr)"
  shows "\<exists>r. getitem_slice (sig (l_counter fr)) (Some (l_bits fr - 1)) None (Some (- 1)) = Inr r \<and>
    sync p = (if counter = PNone then [eq_stmt (l_counter fr) (add (sig (l_counter fr)) (Constant 1))] else [])
      @ [If_Else (lt r (sig (l_duty fr))) [eq_stmt (l_out fr) (Constant 1)] [eq_stmt (l_out fr) (Constant 0)]]"
proof -
  from assms obtain s1 s2 s3 where
    o: "init_out \<lparr>attrs = Map.empty, sync = [], specials = []\<rparr> out = Inr (s1, l_out fr)" and
    d: "init_duty s1 bod dd csr = Inr (s2, l_bits fr, l_duty fr)" and
    c: "init_counter s2 (l_bits fr) counter = Inr (s3, l_counter fr)" and
    m: "init_compare s3 (l_bits fr) (l_counter fr) (l_duty fr) (l_out fr) = Inr p"
    by (rule PDM_init_blocks)
  have "sync s2 = []"
    using init_out_Inr(1) [OF o] init_duty_Inr(1) [OF d] by simp
  then have "sync s3 = (if counter = PNone then [eq_stmt (l_counter fr) (add (sig (l_counter fr)) (Constant 1))] else [])"
    using init_counter_Inr(4,5) [OF c] by simp
  with init_compare_Inr(3) [OF m] show ?thesis by simp
qed

lemma PDM_init_step_out:
  assumes ok: "PDM_init out bod dd counter csr = Inr (p, fr)"
    and wf: "0 < nbits (l_out fr)" and bits: "1 \<le> l_bits fr"
  shows "sync_step (sync p) e (duid (l_out fr)) =
    (if bitreverse (e (duid (l_counter fr))) (nat (l_bits fr)) < e (duid (l_duty fr)) then 1 else 0)"
proof -
  from PDM_init_sync [OF ok] obtain r ss where
    r: "getitem_slice (sig (l_counter fr)) (Some (l_bits fr - 1)) None (Some (- 1)) = Inr r" and
    s: "sync p = ss @ [If_Else (lt r (sig (l_duty fr))) [eq_stmt (l_out fr) (Constant 1)] [eq_stmt (l_out fr) (Constant 0)]]"
    by blast
  have "sem r e = bitreverse (e (duid (l_counter fr))) (nat (l_bits fr))"
    using bits PDM_init_locals(2) [OF ok] r by (rule sem_reversed)
  then show ?thesis
    unfolding s by (simp only: step_comparator [OF wf])
qed

lemma PDM_init_step_own:
  assumes ok: "PDM_init out bod dd PNone csr = Inr (p, fr)"
    and wf: "0 < nbits (l_out fr)"
  shows "sync_step (sync p) e =
    e(Own_counter := (e Own_counter + 1) mod 2 ^ nat (l_bits fr),
      duid (l_out fr) := (if bitreverse (e Own_counter) (nat (l_bits fr)) < e (duid (l_duty fr)) then 1 else 0))"
proof -
  from PDM_init_sync [OF ok] obtain r where
    r: "getitem_slice (sig (l_counter fr)) (Some (l_bits fr - 1)) None (Some (- 1)) = Inr r" and
    s: "sync p = [eq_stmt (l_counter fr) (add (sig (l_counter fr)) (Constant 1)),
      If_Else (lt r (sig (l_duty fr))) [eq_stmt (l_out fr) (Constant 1)] [eq_stmt (l_out fr) (Constant 0)]]"
    by auto
  from PDM_init_locals(7) [OF ok] have
    c: "l_counter fr = \<lparr>duid = Own_counter, nbits = nat (l_bits fr), reset = 0, reset_less = True\<rparr>"
    and bits: "1 \<le> l_bits fr" by simp_all
  have rv: "sem r e = bitreverse (e (duid (l_counter fr))) (nat (l_bits fr))"
    using bits PDM_init_locals(2) [OF ok] r by (rule sem_reversed)
  have one: "(1::int) mod 2 ^ nbits (l_out fr) = 1"
    using wf by simp
  show ?thesis
    unfolding s using rv one
    by (simp add: sync_step_def run_stmts_def If_Else_def lt_def eq_stmt_def Constant_def sig_def add_def c)
qed

lemma PDM_init_step_ext:
  assumes ok: "PDM_init out bod dd counter csr = Inr (p, fr)" and ext: "counter \<noteq> PNone"
    and wf: "0 < nbits (l_out fr)" and bits: "1 \<le> l_bits fr"
  shows "sync_step (sync p) e =
    e(duid (l_out fr) := (if bitreverse (e (duid (l_counter fr))) (nat (l_bits fr)) < e (duid (l_duty fr)) then 1 else 0))"
proof -
  from PDM_init_sync [OF ok] ext obtain r where
    r: "getitem_slice (sig (l_counter fr)) (Some (l_bits fr - 1)) None (Some (- 1)) = Inr r" and
    s: "sync p = [If_Else (lt r (sig (l_duty fr))) [eq_stmt (l_out fr) (Constant 1)] [eq_stmt (l_out fr) (Constant 0)]]"
    by auto
  have rv: "sem r e = bitreverse (e (duid (l_counter fr))) (nat (l_bits fr))"
    using bits PDM_init_locals(2) [OF ok] r by (rule sem_reversed)
  have one: "(1::int) mod 2 ^ nbits (l_out fr) = 1"
    using wf by simp
  show ?thesis
    unfolding s using rv one
    by (simp add: sync_step_def run_stmts_def If_Else_def lt_def eq_stmt_def Constant_def sig_def)
qed

lemma cat_sem_nonneg: "0 \<le> cat_sem vs e"
  by (induction vs) simp_all

lemma getitem_slice_reversed_total:
  "\<exists>bs. getitem_slice v (Some a) None (Some (- 1)) = Inr (Cat bs)"
proof -
  define n where "n = int (width v)"
  define a' where "a' = (if a < 0 then max (a + n) (- 1) else min a (n - 1))"
  have idx: "slice_indices (Some a) None (Some (- 1)) (int (width v)) = (a', - 1, - 1)"
    by (simp add: slice_indices_def Let_def a'_def n_def)
  have a': "a' < n" by (auto simp add: a'_def n_def min_def max_def)
  have rng: "py_range a' (- 1) (- 1) = map (\<lambda>k. a' - int k) [0..<nat (a' + 1)]"
    by (simp add: py_range_def add.commute)
  have "collect (map (getitem_int v) (map (\<lambda>k. a' - int k) [0..<nat (a' + 1)])) =
        Inr (map (\<lambda>k. Slice v (nat (a' - int k)) (nat (a' - int k) + 1)) [0..<nat (a' + 1)])"
    unfolding map_map
  proof (rule collect_map_Inr)
    fix k assume "k \<in> set [0..<nat (a' + 1)]"
    then have "0 \<le> a' - int k" "a' - int k < n" using a' by auto
    then show "(getitem_int v \<circ> (\<lambda>k. a' - int k)) k = Inr (Slice v (nat (a' - int k)) (nat (a' - int k) + 1))"
      by (simp add: getitem_int_def Let_def n_def)
  qed
  then have "getitem_slice v (Some a) None (Some (- 1)) =
      Inr (Cat (map (\<lambda>k. Slice v (nat (a' - int k)) (nat (a' - int k) + 1)) [0..<nat (a' + 1)]))"
    by (simp add: getitem_slice_def idx rng)
  then show ?thesis by blast
qed

lemma sem_reversed_nonneg:
  assumes "getitem_slice v (Some a) None (Some (- 1)) = Inr r"
  shows "0 \<le> sem r e"
proof -
  from getitem_slice_reversed_total [of v a] assms obtain bs where "r = Cat bs" by auto
  then show ?thesis by (simp add: Cat_def cat_sem_nonneg)
qed

lemma init_compare_total: "\<exists>s4. init_compare self bits counter duty out = Inr s4"
proof -
  from getitem_slice_reversed_total [of "sig counter" "bits - 1"]
  obtain bs where "getitem_slice (sig counter) (Some (bits - 1)) None (Some (- 1)) = Inr (Cat bs)"
    by blast
  then show ?thesis by (simp add: init_compare_def)
qed

lemma init_out_total: "\<exists>s1 o1. init_out self out = Inr (s1, o1)"
  by (cases out) (simp_all add: init_out_def Signal_new_def)

lemma init_duty_cases:
  "init_duty self bod dd csr =
     (case bod of
        Duty d \<Rightarrow>
          if dd \<noteq> 0 then Inl (ValueError ''default_duty can not be set when external duty is supplied'')
          else if csr then Inl (ValueError ''with_csr can not be set when external duty is supplied'')
          else Inr (setattr self ''duty'' (PSig d), int (nbits d), d)
      | Bits b \<Rightarrow>
          if b \<le> 0 then Inl (TypeError ''Width must be a strictly positive integer'')
          else Inr (fst (projr (init_duty self bod dd csr)), b,
                 \<lparr>duid = Own_duty, nbits = nat b, reset = dd, reset_less = False\<rparr>))"
  by (auto simp add: init_duty_def Let_def Signal_new_def add_csr_def attrs_setattr CSRStorage_new_def
      split: bits_or_duty.splits)

lemma init_counter_cases:
  "init_counter self bits counter =
     (case counter of
        PNone \<Rightarrow>
          if bits \<le> 0 then Inl (TypeError ''Width must be a strictly positive integer'')
          else Inr (fst (projr (init_counter self bits counter)),
                 \<lparr>duid = Own_counter, nbits = nat bits, reset = 0, reset_less = True\<rparr>)
      | PSig c \<Rightarrow>
          if int (nbits c) < bits then Inl (ValueError (''counter nbits < '' @ str_int bits))
          else Inr (fst (projr (init_counter self bits counter)), c)
      | _ \<Rightarrow> Inl (ValueError ''counter must be a Signal''))"
  by (auto simp add: init_counter_def Signal_new_def split: pyval.splits)

lemma PDM_init_error:
  assumes "PDM_init out bod dd counter csr = Inl err"
  shows "(\<exists>m. err = ValueError m) \<or>
    err = TypeError ''Width must be a strictly positive integer'' \<and>
      (case bod of Bits b \<Rightarrow> b \<le> 0 | Duty s \<Rightarrow> nbits s = 0 \<and> counter = PNone)"
proof -
  obtain s1 o1 where o: "init_out \<lparr>attrs = Map.empty, sync = [], specials = []\<rparr> out = Inr (s1, o1)"
    using init_out_total by blast
  show ?thesis
  proof (cases "init_duty s1 bod dd csr")
    case (Inl e)
    then have "(\<exists>m. e = ValueError m) \<or>
        e = TypeError ''Width must be a strictly positive integer'' \<and>
          (case bod of Bits b \<Rightarrow> b \<le> 0 | Duty s \<Rightarrow> nbits s = 0 \<and> counter = PNone)"
      by (subst (asm) init_duty_cases) (auto split: bits_or_duty.splits if_splits)
    with assms o Inl show ?thesis by (simp add: PDM_init_def)
  next
    case (Inr t)
    obtain s2 bits duty where t: "t = (s2, bits, duty)" by (cases t)
    from Inr t have d: "init_duty s1 bod dd csr = Inr (s2, bits, duty)" by simp
    show ?thesis
    proof (cases "init_counter s2 bits counter")
      case (Inl e)
      then have e: "(\<exists>m. e = ValueError m) \<or>
          e = TypeError ''Width must be a strictly positive integer'' \<and> bits \<le> 0 \<and> counter = PNone"
        by (subst (asm) init_counter_cases) (auto split: pyval.splits if_splits)
      have "case bod of Bits b \<Rightarrow> b \<le> 0 | Duty s \<Rightarrow> nbits s = 0 \<and> counter = PNone"
        if "bits \<le> 0" "counter = PNone"
      proof (cases bod)
        case (Bits b)
        from init_duty_Inr(4) [OF d Bits] that show ?thesis by simp
      next
        case (Duty s)
        from init_duty_Inr(2,3) [OF d] Duty that show ?thesis by simp
      qed
      with e have "(\<exists>m. e = ValueError m) \<or>
          e = TypeError ''Width must be a strictly positive integer'' \<and>
            (case bod of Bits b \<Rightarrow> b \<le> 0 | Duty s \<Rightarrow> nbits s = 0 \<and> counter = PNone)"
        by blast
      with assms o d Inl show ?thesis by (simp add: PDM_init_def)
    next
      case c: (Inr u)
      obtain s3 c1 where u: "u = (s3, c1)" by (cases u)
      obtain s4 where "init_compare s3 bits c1 duty o1 = Inr s4"
        using init_compare_total by blast
      with assms o d c u show ?thesis by (simp add: PDM_init_def)
    qed
  qed
qed

lemma PDM_init_succeeds:
  assumes "case bod of Duty d \<Rightarrow> dd = 0 \<and> \<not> csr | Bits b \<Rightarrow> 0 < b"
    and "case counter of PNone \<Rightarrow> (case bod of Duty d \<Rightarrow> 0 < nbits d | Bits b \<Rightarrow> True)
           | PSig c \<Rightarrow> (case bod of Duty d \<Rightarrow> nbits d | Bits b \<Rightarrow> nat b) \<le> nbits c
           | _ \<Rightarrow> False"
  shows "\<exists>p fr. PDM_init out bod dd counter csr = Inr (p, fr)"
proof -
  obtain s1 o1 where o: "init_out \<lparr>attrs = Map.empty, sync = [], specials = []\<rparr> out = Inr (s1, o1)"
    using init_out_total by blast
  define bits where "bits = (case bod of Duty d \<Rightarrow> int (nbits d) | Bits b \<Rightarrow> b)"
  have "\<exists>s2 duty. init_duty s1 bod dd csr = Inr (s2, bits, duty)"
    using assms(1) by (subst init_duty_cases) (auto simp add: bits_def split: bits_or_duty.splits)
  then obtain s2 duty where d: "init_duty s1 bod dd csr = Inr (s2, bits, duty)"
    by blast
  have "\<exists>s3 c1. init_counter s2 bits counter = Inr (s3, c1)"
    using assms by (subst init_counter_cases)
      (auto simp add: bits_def nat_le_iff split: pyval.splits bits_or_duty.splits)
  then obtain s3 c1 where c: "init_counter s2 bits counter = Inr (s3, c1)"
    by blast
  obtain s4 where "init_compare s3 bits c1 duty o1 = Inr s4"
    using init_compare_total by blast
  with o d c show ?thesis by (simp add: PDM_init_def)
qed

lemma PDM_init_attrs:
  assumes ok: "PDM_init out bod dd counter csr = Inr (p, fr)"
  shows "attrs p ''counter'' = Some (PSig (l_counter fr))"
    "attrs p ''out'' = (case out of None \<Rightarrow> Some (PSig (l_out fr)) | Some s \<Rightarrow> None)"
    "\<not> csr \<Longrightarrow> attrs p ''duty'' = Some (PSig (l_duty fr)) \<and> attrs p ''_duty_csr'' = None
        \<and> attrs p ''_duty'' = None \<and> specials p = []"
    "csr \<Longrightarrow> attrs p ''duty'' = Some PNone \<and> attrs p ''_duty_csr'' = Some (PSig (l_duty fr))
        \<and> attrs p ''_duty'' = Some (PCsr \<lparr>csr_size = nat (l_bits fr),
              storage = \<lparr>duid = Csr_storage, nbits = nat (l_bits fr), reset = dd, reset_less = True\<rparr>\<rparr>)
        \<and> specials p = [\<lparr>mr_i = \<lparr>duid = Csr_storage, nbits = nat (l_bits fr), reset = dd, reset_less = True\<rparr>,
              mr_o = l_duty fr, mr_n = 2\<rparr>]"
    "attrs p ''bits'' = (case bod of Bits b \<Rightarrow> Some (PInt b) | Duty d \<Rightarrow> None)"
proof -
  from ok obtain s1 s2 s3 where
    o: "init_out \<lparr>attrs = Map.empty, sync = [], specials = []\<rparr> out = Inr (s1, l_out fr)" and
    d: "init_duty s1 bod dd csr = Inr (s2, l_bits fr, l_duty fr)" and
    c: "init_counter s2 (l_bits fr) counter = Inr (s3, l_counter fr)" and
    m: "init_compare s3 (l_bits fr) (l_counter fr) (l_duty fr) (l_out fr) = Inr p"
    by (rule PDM_init_blocks)
  have a1: "attrs s1 = (case out of None \<Rightarrow> [''out'' \<mapsto> PSig (l_out fr)] | Some s \<Rightarrow> Map.empty)"
    and sp1: "specials s1 = []"
    using init_out_Inr(2,3,4) [OF o] by (auto split: option.splits)
  have a3: "attrs p = (attrs s2)(''counter'' \<mapsto> PSig (l_counter fr))" and sp3: "specials p = specials s2"
    using init_counter_Inr(1,2) [OF c] init_compare_Inr(1,2) [OF m] by simp_all
  show "attrs p ''counter'' = Some (PSig (l_counter fr))"
    by (simp add: a3)
  show "attrs p ''out'' = (case out of None \<Rightarrow> Some (PSig (l_out fr)) | Some s \<Rightarrow> None)"
  proof (cases bod)
    case (Duty x)
    from init_duty_Inr(3) [OF d Duty] show ?thesis
      by (simp add: a3 a1 split: option.splits)
  next
    case (Bits b)
    show ?thesis
    proof (cases csr)
      case True
      from init_duty_Inr(6) [OF d Bits True] show ?thesis
        by (simp add: a3 a1 split: option.splits)
    next
      case False
      from init_duty_Inr(5) [OF d Bits False] show ?thesis
        by (simp add: a3 a1 split: option.splits)
    qed
  qed
  show "attrs p ''bits'' = (case bod of Bits b \<Rightarrow> Some (PInt b) | Duty d \<Rightarrow> None)"
  proof (cases bod)
    case (Duty x)
    from init_duty_Inr(3) [OF d Duty] show ?thesis
      by (simp add: a3 a1 Duty split: option.splits)
  next
    case (Bits b)
    show ?thesis
    proof (cases csr)
      case True
      from init_duty_Inr(6) [OF d Bits True] show ?thesis
        by (simp add: a3 a1 Bits split: option.splits)
    next
      case False
      from init_duty_Inr(5) [OF d Bits False] show ?thesis
        by (simp add: a3 a1 Bits split: option.splits)
    qed
  qed
  show "attrs p ''duty'' = Some (PSig (l_duty fr)) \<and> attrs p ''_duty_csr'' = None
        \<and> attrs p ''_duty'' = None \<and> specials p = []" if "\<not> csr"
  proof (cases bod)
    case (Duty x)
    from init_duty_Inr(3) [OF d Duty] show ?thesis
      by (simp add: a3 a1 sp1 sp3 split: option.splits)
  next
    case (Bits b)
    from init_duty_Inr(5) [OF d Bits that] show ?thesis
      by (simp add: a3 a1 sp1 sp3 split: option.splits)
  qed
  show "attrs p ''duty'' = Some PNone \<and> attrs p ''_duty_csr'' = Some (PSig (l_duty fr))
        \<and> attrs p ''_duty'' = Some (PCsr \<lparr>csr_size = nat (l_bits fr),
              storage = \<lparr>duid = Csr_storage, nbits = nat (l_bits fr), reset = dd, reset_less = True\<rparr>\<rparr>)
        \<and> specials p = [\<lparr>mr_i = \<lparr>duid = Csr_storage, nbits = nat (l_bits fr), reset = dd, reset_less = True\<rparr>,
              mr_o = l_duty fr, mr_n = 2\<rparr>]" if "csr"
  proof (cases bod)
    case (Duty x)
    from init_duty_Inr(3) [OF d Duty] that show ?thesis by simp
  next
    case (Bits b)
    from init_duty_Inr(4) [OF d Bits] have "l_bits fr = b" by simp
    with init_duty_Inr(6) [OF d Bits that] show ?thesis
      by (simp add: a3 a1 sp1 sp3 split: option.splits)
  qed
qed

lemma PDM_init_well_formed:
  assumes ok: "PDM_init out bod dd counter csr = Inr (p, fr)"
    and wf: "well_formed out bod counter"
  shows "0 < nbits (l_out fr)" "1 \<le> l_bits fr"
    "duid (l_out fr) \<noteq> Own_counter" "duid (l_out fr) \<noteq> Own_duty"
    "duid (l_duty fr) \<noteq> Own_counter" "duid (l_duty fr) \<noteq> Own_out"
    "duid (l_counter fr) \<noteq> Own_duty" "duid (l_counter fr) \<noteq> Own_out"
proof -
  show o: "0 < nbits (l_out fr)"
    using PDM_init_locals(3,4) [OF ok] wf
    by (cases out) (auto simp add: well_formed_def dest: supplied_D)
  show "duid (l_out fr) \<noteq> Own_counter" "duid (l_out fr) \<noteq> Own_duty"
    using PDM_init_locals(3,4) [OF ok] wf
    by (cases out; auto simp add: well_formed_def dest: supplied_D)+
  show "1 \<le> l_bits fr"
  proof (cases bod)
    case (Bits b)
    from PDM_init_locals(6) [OF ok Bits] show ?thesis by simp
  next
    case (Duty d)
    with wf have "0 < nbits d" by (auto simp add: well_formed_def dest: supplied_D)
    with PDM_init_locals(1,5) [OF ok] Duty show ?thesis by simp
  qed
  show "duid (l_duty fr) \<noteq> Own_counter" "duid (l_duty fr) \<noteq> Own_out"
    using PDM_init_locals(5,6) [OF ok] wf
    by (cases bod; auto simp add: well_formed_def dest: supplied_D)+
  show "duid (l_counter fr) \<noteq> Own_duty" "duid (l_counter fr) \<noteq> Own_out"
    using PDM_init_locals(7,8) [OF ok] wf
    by (cases "counter = PNone"; auto simp add: well_formed_def dest: supplied_D)+
qed

lemma window_card:
  fixes c0 :: int and b :: nat
  shows "card {k::nat. k < 2 ^ b \<and> P ((c0 + int k) mod 2 ^ b)} = card {c::int. 0 \<le> c \<and> c < 2 ^ b \<and> P c}"
proof (rule bij_betw_same_card)
  let ?N = "2 ^ b :: int"
  let ?g = "\<lambda>k::nat. (c0 + int k) mod ?N"
  let ?h = "\<lambda>c::int. nat ((c - c0) mod ?N)"
  let ?A = "{k::nat. k < 2 ^ b \<and> P (?g k)}"
  let ?B = "{c::int. 0 \<le> c \<and> c < ?N \<and> P c}"
  have inv_r: "?g (?h c) = c" if "0 \<le> c" "c < ?N" for c
  proof -
    have "?g (?h c) = (c0 + (c - c0) mod ?N) mod ?N" by simp
    also have "\<dots> = (c0 + (c - c0)) mod ?N" by (simp only: mod_add_right_eq)
    also have "\<dots> = c" using that by simp
    finally show ?thesis .
  qed
  have inv_l: "?h (?g k) = k" if "k < 2 ^ b" for k
  proof -
    from that have "int k < int (2 ^ b)" by (simp only: of_nat_less_iff)
    then have k: "int k < ?N" by simp
    have "((c0 + int k) mod ?N - c0) mod ?N = (c0 + int k - c0) mod ?N"
      by (simp only: mod_diff_left_eq)
    also have "\<dots> = int k" using k by simp
    finally show ?thesis by simp
  qed
  have small: "?h c < 2 ^ b" for c
  proof -
    have "(c - c0) mod ?N < ?N" by simp
    then have "int (?h c) < int (2 ^ b)" by simp
    then show ?thesis by (simp only: of_nat_less_iff)
  qed
  show "bij_betw ?g ?A ?B"
  proof (rule bij_betw_byWitness [where f' = ?h])
    show "\<forall>k\<in>?A. ?h (?g k) = k" using inv_l by simp
    show "\<forall>c\<in>?B. ?g (?h c) = c" using inv_r by simp
    show "?g ` ?A \<subseteq> ?B" by auto
    show "?h ` ?B \<subseteq> ?A" using inv_r small by auto
  qed
qed

lemma own_counter_run:
  assumes ok: "PDM_init out bod dd PNone csr = Inr (p, fr)"
    and wf: "well_formed out bod PNone"
    and distinct: "duid (l_out fr) \<noteq> duid (l_duty fr)"
    and c0: "0 \<le> e Own_counter" "e Own_counter < 2 ^ nat (l_bits fr)"
  shows "((sync_step (sync p)) ^^ k) e Own_counter = (e Own_counter + int k) mod 2 ^ nat (l_bits fr) \<and>
         ((sync_step (sync p)) ^^ k) e (duid (l_duty fr)) = e (duid (l_duty fr))"
proof (induction k)
  case 0
  from c0 show ?case by simp
next
  case (Suc k)
  note w = PDM_init_well_formed [OF ok wf]
  let ?x = "((sync_step (sync p)) ^^ k) e"
  have st: "sync_step (sync p) ?x =
      ?x(Own_counter := (?x Own_counter + 1) mod 2 ^ nat (l_bits fr),
         duid (l_out fr) := (if bitreverse (?x Own_counter) (nat (l_bits fr)) < ?x (duid (l_duty fr)) then 1 else 0))"
    by (rule PDM_init_step_own [OF ok w(1)])
  have "sync_step (sync p) ?x Own_counter = (?x Own_counter + 1) mod 2 ^ nat (l_bits fr)"
    unfolding st using w(3) by simp
  also have "\<dots> = ((e Own_counter + int k) mod 2 ^ nat (l_bits fr) + 1) mod 2 ^ nat (l_bits fr)"
    using Suc by simp
  also have "\<dots> = (e Own_counter + int k + 1) mod 2 ^ nat (l_bits fr)"
    by (simp only: mod_add_left_eq)
  finally have "sync_step (sync p) ?x Own_counter = (e Own_counter + int (Suc k)) mod 2 ^ nat (l_bits fr)"
    by (simp add: ac_simps)
  moreover have "sync_step (sync p) ?x (duid (l_duty fr)) = ?x (duid (l_duty fr))"
    unfolding st using w(5) distinct by simp
  then have "sync_step (sync p) ?x (duid (l_duty fr)) = e (duid (l_duty fr))"
    using Suc by simp
  ultimately show ?case by simp
qed

lemma comparator_frame:
  assumes "x \<noteq> duid out"
  shows "sync_step [If_Else c [eq_stmt out a] [eq_stmt out b]] e x = e x"
  using assms by (simp add: sync_step_def run_stmts_def If_Else_def eq_stmt_def)

section \<open>The claims\<close>

text \<open>
  C1. For a width \<open>bits \<ge> 1\<close>, a counter value \<open>c\<close> and a duty value \<open>d\<close>, both in
  \<open>[0, 2^bits)\<close>, the value the clock edge gives the output is 1 exactly when
  \<open>bitreverse c bits < d\<close>, and 0 otherwise; bit \<open>i\<close> of \<open>bitreverse c bits\<close> is bit
  \<open>bits - 1 - i\<close> of \<open>c\<close>, and the reversal stays in \<open>[0, 2^bits)\<close>. The output depends on
  nothing but \<open>c\<close> and \<open>d\<close>: any two states that agree on the counter and on the duty
  give the same output.
\<close>

theorem output_iff_bitreverse_less:
  assumes "PDM_init out bod dd counter csr = Inr (p, fr)"
    and "well_formed out bod counter"
    and "bits = nat (l_bits fr)" and "1 \<le> bits"
    and "0 \<le> c" and "c < 2 ^ bits" and "0 \<le> d" and "d < 2 ^ bits"
    and "e (duid (l_counter fr)) = c" and "e (duid (l_duty fr)) = d"
  shows "(sync_step (sync p) e (duid (l_out fr)) = 1 \<longleftrightarrow> bitreverse c bits < d) \<and>
    (sync_step (sync p) e (duid (l_out fr)) = 0 \<longleftrightarrow> \<not> bitreverse c bits < d) \<and>
    (\<forall>i<bits. bit (bitreverse c bits) i \<longleftrightarrow> bit c (bits - 1 - i)) \<and>
    0 \<le> bitreverse c bits \<and> bitreverse c bits < 2 ^ bits \<and>
    (\<forall>e'. e' (duid (l_counter fr)) = c \<and> e' (duid (l_duty fr)) = d \<longrightarrow>
       sync_step (sync p) e' (duid (l_out fr)) = sync_step (sync p) e (duid (l_out fr)))"
proof -
  note wf = PDM_init_well_formed [OF assms(1,2)]
  have step: "sync_step (sync p) x (duid (l_out fr)) =
      (if bitreverse (x (duid (l_counter fr))) bits < x (duid (l_duty fr)) then 1 else 0)" for x
    unfolding assms(3) by (rule PDM_init_step_out [OF assms(1) wf(1,2)])
  have "sync_step (sync p) e (duid (l_out fr)) = (if bitreverse c bits < d then 1 else 0)"
    by (simp only: step assms(9,10))
  moreover have "\<forall>e'. e' (duid (l_counter fr)) = c \<and> e' (duid (l_duty fr)) = d \<longrightarrow>
       sync_step (sync p) e' (duid (l_out fr)) = sync_step (sync p) e (duid (l_out fr))"
    by (simp add: step assms(9,10))
  moreover have "\<forall>i<bits. bit (bitreverse c bits) i \<longleftrightarrow> bit c (bits - 1 - i)"
    by (simp add: bit_bitreverse)
  ultimately show ?thesis
    by (simp add: bitreverse_nonneg bitreverse_less)
qed

theorem output_iff_bitreverse_less_witness:
  "\<exists>p fr. PDM_init None (Bits 3) 0 PNone False = Inr (p, fr) \<and>
     well_formed None (Bits 3) PNone \<and> l_bits fr = 3 \<and>
     duid (l_counter fr) = Own_counter \<and> duid (l_duty fr) = Own_duty \<and> duid (l_out fr) = Own_out \<and>
     bitreverse 6 3 = 3 \<and>
     sync_step (sync p) ((\<lambda>i. 0)(Own_counter := 6, Own_duty := 4)) Own_out = 1"
proof -
  obtain p fr where ok: "PDM_init None (Bits 3) 0 PNone False = Inr (p, fr)"
    using PDM_init_succeeds [where bod = "Bits 3" and dd = 0 and csr = False and counter = PNone and out = None] by auto
  have wf: "well_formed None (Bits 3) PNone"
    by (simp add: well_formed_def)
  have loc: "l_bits fr = 3" "duid (l_counter fr) = Own_counter" "duid (l_duty fr) = Own_duty"
    "duid (l_out fr) = Own_out"
    using PDM_init_locals(3,6,7) [OF ok] by simp_all
  have rv: "bitreverse 6 3 = 3"
    by (simp add: bitreverse_def lessThan_nat_numeral lessThan_Suc bit_numeral_simps numeral_3_eq_3)
  from output_iff_bitreverse_less [OF ok wf, of 3 6 4 "(\<lambda>i. 0)(Own_counter := 6, Own_duty := 4)"]
  have "sync_step (sync p) ((\<lambda>i. 0)(Own_counter := 6, Own_duty := 4)) Own_out = 1"
    by (simp add: loc rv)
  with ok wf loc rv show ?thesis by blast
qed

text \<open>
  C3. With a duty of 0 the clock edge gives the output the value 0, whatever the counter
  holds and whatever the width is.
\<close>

theorem duty_zero_output_zero:
  assumes "PDM_init out bod dd counter csr = Inr (p, fr)"
    and "e (duid (l_duty fr)) = 0"
  shows "sync_step (sync p) e (duid (l_out fr)) = 0"
proof -
  from PDM_init_sync [OF assms(1)] obtain r ss where
    r: "getitem_slice (sig (l_counter fr)) (Some (l_bits fr - 1)) None (Some (- 1)) = Inr r" and
    s: "sync p = ss @ [If_Else (lt r (sig (l_duty fr))) [eq_stmt (l_out fr) (Constant 1)] [eq_stmt (l_out fr) (Constant 0)]]"
    by blast
  have "0 \<le> sem r e" using r by (rule sem_reversed_nonneg)
  with assms(2) have "\<not> sem r e < e (duid (l_duty fr))" by simp
  then show ?thesis
    unfolding s
    by (simp add: sync_step_def run_stmts_def If_Else_def lt_def eq_stmt_def Constant_def sig_def)
qed

theorem duty_zero_output_zero_witness:
  "\<exists>p fr. PDM_init None (Bits 3) 0 PNone False = Inr (p, fr) \<and>
     duid (l_duty fr) = Own_duty \<and> duid (l_out fr) = Own_out \<and>
     sync_step (sync p) ((\<lambda>i. 7)(Own_duty := 0)) Own_out = 0"
proof -
  obtain p fr where ok: "PDM_init None (Bits 3) 0 PNone False = Inr (p, fr)"
    using PDM_init_succeeds [where bod = "Bits 3" and dd = 0 and csr = False and counter = PNone and out = None] by auto
  have loc: "duid (l_duty fr) = Own_duty" "duid (l_out fr) = Own_out"
    using PDM_init_locals(3,6) [OF ok] by simp_all
  from duty_zero_output_zero [OF ok, of "(\<lambda>i. 7)(Own_duty := 0)"]
  have "sync_step (sync p) ((\<lambda>i. 7)(Own_duty := 0)) Own_out = 0"
    by (simp add: loc)
  with ok loc show ?thesis by blast
qed

text \<open>
  C4. With the duty at its maximum \<open>2^bits - 1\<close>, exactly one counter value of a period
  gives the output 0: the counter value \<open>2^bits - 1\<close>. The counter and the duty are two
  signals, so that the counter can run while the duty stands.
\<close>

theorem duty_max_one_low:
  assumes "PDM_init out bod dd counter csr = Inr (p, fr)"
    and "well_formed out bod counter"
    and "duid (l_counter fr) \<noteq> duid (l_duty fr)"
    and "bits = nat (l_bits fr)"
    and "e (duid (l_duty fr)) = 2 ^ bits - 1"
  shows "{c. 0 \<le> c \<and> c < 2 ^ bits \<and>
            sync_step (sync p) (e(duid (l_counter fr) := c)) (duid (l_out fr)) = 0} = {2 ^ bits - 1} \<and>
    card {c. 0 \<le> c \<and> c < 2 ^ bits \<and>
            sync_step (sync p) (e(duid (l_counter fr) := c)) (duid (l_out fr)) = 0} = 1"
proof -
  note wf = PDM_init_well_formed [OF assms(1,2)]
  have step: "sync_step (sync p) x (duid (l_out fr)) =
      (if bitreverse (x (duid (l_counter fr))) bits < x (duid (l_duty fr)) then 1 else 0)" for x
    unfolding assms(4) by (rule PDM_init_step_out [OF assms(1) wf(1,2)])
  have low: "sync_step (sync p) (e(duid (l_counter fr) := c)) (duid (l_out fr)) = 0 \<longleftrightarrow>
      \<not> bitreverse c bits < 2 ^ bits - 1" for c
    using assms(3,5) by (simp add: step)
  have "{c. 0 \<le> c \<and> c < 2 ^ bits \<and>
            sync_step (sync p) (e(duid (l_counter fr) := c)) (duid (l_out fr)) = 0} = {2 ^ bits - 1 :: int}"
    unfolding low
  proof (intro set_eqI iffI)
    fix c :: int assume "c \<in> {c. 0 \<le> c \<and> c < 2 ^ bits \<and> \<not> bitreverse c bits < 2 ^ bits - 1}"
    then have "0 \<le> c" "c < 2 ^ bits" "\<not> bitreverse c bits < 2 ^ bits - 1" by simp_all
    then have "c = 2 ^ bits - 1" by (simp only: bitreverse_max_iff)
    then show "c \<in> {2 ^ bits - 1}" by simp
  next
    fix c :: int assume "c \<in> {2 ^ bits - 1}"
    then have c: "c = 2 ^ bits - 1" by simp
    then have "0 \<le> c" "c < 2 ^ bits" by simp_all
    moreover from this c have "\<not> bitreverse c bits < 2 ^ bits - 1" by (simp only: bitreverse_max_iff)
    ultimately show "c \<in> {c. 0 \<le> c \<and> c < 2 ^ bits \<and> \<not> bitreverse c bits < 2 ^ bits - 1}" by simp
  qed
  then show ?thesis by simp
qed

theorem duty_max_one_low_witness:
  "\<exists>p fr. PDM_init None (Bits 3) 0 PNone False = Inr (p, fr) \<and>
     well_formed None (Bits 3) PNone \<and> l_bits fr = 3 \<and>
     duid (l_counter fr) = Own_counter \<and> duid (l_duty fr) = Own_duty \<and> duid (l_out fr) = Own_out \<and>
     {c. 0 \<le> c \<and> c < 8 \<and> sync_step (sync p) ((\<lambda>i. 7)(Own_counter := c)) Own_out = 0} = {7}"
proof -
  obtain p fr where ok: "PDM_init None (Bits 3) 0 PNone False = Inr (p, fr)"
    using PDM_init_succeeds [where bod = "Bits 3" and dd = 0 and csr = False and counter = PNone and out = None] by auto
  have wf: "well_formed None (Bits 3) PNone"
    by (simp add: well_formed_def)
  have loc: "l_bits fr = 3" "duid (l_counter fr) = Own_counter" "duid (l_duty fr) = Own_duty"
    "duid (l_out fr) = Own_out"
    using PDM_init_locals(3,6,7) [OF ok] by simp_all
  from duty_max_one_low [OF ok wf, of 3 "\<lambda>i. 7"]
  have "{c. 0 \<le> c \<and> c < 8 \<and> sync_step (sync p) ((\<lambda>i. 7)(Own_counter := c)) Own_out = 0} = {7}"
    by (simp add: loc)
  with ok wf loc show ?thesis by blast
qed

text \<open>
  C2. The core owns its counter and the duty stands at \<open>d\<close> in \<open>[0, 2^bits)\<close>. From any
  counter value, over the next \<open>2^bits\<close> clock edges the output is given the value 1 at
  exactly \<open>d\<close> of them; and exactly \<open>d\<close> of the \<open>2^bits\<close> counter values give the
  output the value 1. The output signal is not the duty signal.
\<close>

theorem density_over_window:
  assumes "PDM_init out bod dd PNone csr = Inr (p, fr)"
    and "well_formed out bod PNone"
    and "duid (l_out fr) \<noteq> duid (l_duty fr)"
    and "bits = nat (l_bits fr)"
    and "0 \<le> d" and "d < 2 ^ bits"
    and "e (duid (l_duty fr)) = d"
    and "0 \<le> e Own_counter" and "e Own_counter < 2 ^ bits"
  shows "card {k. k < 2 ^ bits \<and> ((sync_step (sync p)) ^^ Suc k) e (duid (l_out fr)) = 1} = nat d \<and>
    card {c. 0 \<le> c \<and> c < 2 ^ bits \<and>
            sync_step (sync p) (e(Own_counter := c)) (duid (l_out fr)) = 1} = nat d"
proof -
  note w = PDM_init_well_formed [OF assms(1,2)]
  have ctr: "duid (l_counter fr) = Own_counter"
    using PDM_init_locals(7) [OF assms(1)] by simp
  have step: "sync_step (sync p) x (duid (l_out fr)) =
      (if bitreverse (x Own_counter) bits < x (duid (l_duty fr)) then 1 else 0)" for x
    using PDM_init_step_out [OF assms(1) w(1,2), of x] by (simp only: ctr assms(4))
  have run: "((sync_step (sync p)) ^^ k) e Own_counter = (e Own_counter + int k) mod 2 ^ bits"
    "((sync_step (sync p)) ^^ k) e (duid (l_duty fr)) = d" for k
    using own_counter_run [OF assms(1,2,3), of e k] assms(7,8,9) by (simp_all add: assms(4))
  have "((sync_step (sync p)) ^^ Suc k) e (duid (l_out fr)) = 1 \<longleftrightarrow>
      bitreverse ((e Own_counter + int k) mod 2 ^ bits) bits < d" for k
    by (simp add: step run)
  then have "card {k. k < 2 ^ bits \<and> ((sync_step (sync p)) ^^ Suc k) e (duid (l_out fr)) = 1} =
      card {k::nat. k < 2 ^ bits \<and> bitreverse ((e Own_counter + int k) mod 2 ^ bits) bits < d}"
    by simp
  also have "\<dots> = card {c. 0 \<le> c \<and> c < 2 ^ bits \<and> bitreverse c bits < d}"
    by (rule window_card)
  also have "\<dots> = nat d"
    using assms(5,6) by (simp add: card_bitreverse_less)
  finally have window: "card {k. k < 2 ^ bits \<and> ((sync_step (sync p)) ^^ Suc k) e (duid (l_out fr)) = 1} = nat d" .
  have "sync_step (sync p) (e(Own_counter := c)) (duid (l_out fr)) = 1 \<longleftrightarrow> bitreverse c bits < d" for c
    using w(5) assms(7) by (simp add: step)
  then have "card {c. 0 \<le> c \<and> c < 2 ^ bits \<and>
            sync_step (sync p) (e(Own_counter := c)) (duid (l_out fr)) = 1} =
      card {c. 0 \<le> c \<and> c < 2 ^ bits \<and> bitreverse c bits < d}"
    by simp
  also have "\<dots> = nat d"
    using assms(5,6) by (simp add: card_bitreverse_less)
  finally show ?thesis using window by simp
qed

theorem density_over_window_witness:
  "\<exists>p fr. PDM_init None (Bits 3) 0 PNone False = Inr (p, fr) \<and>
     well_formed None (Bits 3) PNone \<and> l_bits fr = 3 \<and>
     duid (l_duty fr) = Own_duty \<and> duid (l_out fr) = Own_out \<and>
     card {k. k < 8 \<and> ((sync_step (sync p)) ^^ Suc k) ((\<lambda>i. 0)(Own_counter := 5, Own_duty := 3)) Own_out = 1} = 3"
proof -
  obtain p fr where ok: "PDM_init None (Bits 3) 0 PNone False = Inr (p, fr)"
    using PDM_init_succeeds [where bod = "Bits 3" and dd = 0 and csr = False and counter = PNone and out = None] by auto
  have wf: "well_formed None (Bits 3) PNone"
    by (simp add: well_formed_def)
  have loc: "l_bits fr = 3" "duid (l_duty fr) = Own_duty" "duid (l_out fr) = Own_out"
    using PDM_init_locals(3,6) [OF ok] by simp_all
  from density_over_window [OF ok wf, of 3 3 "(\<lambda>i. 0)(Own_counter := 5, Own_duty := 3)"]
  have "card {k. k < 8 \<and> ((sync_step (sync p)) ^^ Suc k) ((\<lambda>i. 0)(Own_counter := 5, Own_duty := 3)) Own_out = 1} = 3"
    by (simp add: loc)
  with ok wf loc show ?thesis by blast
qed

text \<open>
  C5. Without a counter from the caller the core makes its own: a signal of width
  \<open>bits\<close> whose reset value, its value at the start, is 0. Each clock edge adds 1
  modulo \<open>2^bits\<close>: below \<open>2^bits - 1\<close> the counter goes up by one, from
  \<open>2^bits - 1\<close> it goes to 0, and it stays in \<open>[0, 2^bits)\<close>.
\<close>

theorem own_counter_increments:
  assumes "PDM_init out bod dd PNone csr = Inr (p, fr)"
    and "well_formed out bod PNone"
    and "bits = nat (l_bits fr)"
  shows "l_counter fr = \<lparr>duid = Own_counter, nbits = bits, reset = 0, reset_less = True\<rparr> \<and>
    attrs p ''counter'' = Some (PSig (l_counter fr)) \<and>
    (case bod of Bits b \<Rightarrow> int bits = b | Duty s \<Rightarrow> bits = nbits s) \<and> 1 \<le> bits \<and>
    sync_step (sync p) e Own_counter = (e Own_counter + 1) mod 2 ^ bits \<and>
    0 \<le> sync_step (sync p) e Own_counter \<and> sync_step (sync p) e Own_counter < 2 ^ bits \<and>
    (0 \<le> e Own_counter \<and> e Own_counter < 2 ^ bits - 1 \<longrightarrow>
       sync_step (sync p) e Own_counter = e Own_counter + 1) \<and>
    (e Own_counter = 2 ^ bits - 1 \<longrightarrow> sync_step (sync p) e Own_counter = 0)"
proof -
  note w = PDM_init_well_formed [OF assms(1,2)]
  have c: "l_counter fr = \<lparr>duid = Own_counter, nbits = bits, reset = 0, reset_less = True\<rparr>"
    using PDM_init_locals(7) [OF assms(1)] by (simp add: assms(3))
  have a: "attrs p ''counter'' = Some (PSig (l_counter fr))"
    by (rule PDM_init_attrs(1) [OF assms(1)])
  have b: "case bod of Bits b \<Rightarrow> int bits = b | Duty s \<Rightarrow> bits = nbits s"
  proof (cases bod)
    case (Bits x)
    from PDM_init_locals(6) [OF assms(1) Bits] show ?thesis by (simp add: Bits assms(3))
  next
    case (Duty s)
    from PDM_init_locals(1,5) [OF assms(1)] Duty show ?thesis by (simp add: assms(3))
  qed
  have pos: "1 \<le> bits" using w(2) by (simp add: assms(3))
  have "sync_step (sync p) e =
      e(Own_counter := (e Own_counter + 1) mod 2 ^ bits,
        duid (l_out fr) := (if bitreverse (e Own_counter) bits < e (duid (l_duty fr)) then 1 else 0))"
    unfolding assms(3) by (rule PDM_init_step_own [OF assms(1) w(1)])
  then have step: "sync_step (sync p) e Own_counter = (e Own_counter + 1) mod 2 ^ bits"
    using w(3) by simp
  have up: "sync_step (sync p) e Own_counter = e Own_counter + 1"
    if "0 \<le> e Own_counter" "e Own_counter < 2 ^ bits - 1"
    using that by (simp add: step)
  have wrap: "sync_step (sync p) e Own_counter = 0" if "e Own_counter = 2 ^ bits - 1"
    using that by (simp add: step)
  have "0 \<le> sync_step (sync p) e Own_counter" "sync_step (sync p) e Own_counter < 2 ^ bits"
    by (simp_all add: step)
  with c a b pos step up wrap show ?thesis by blast
qed

theorem own_counter_increments_witness:
  "\<exists>p fr. PDM_init None (Bits 3) 0 PNone False = Inr (p, fr) \<and>
     well_formed None (Bits 3) PNone \<and>
     l_counter fr = \<lparr>duid = Own_counter, nbits = 3, reset = 0, reset_less = True\<rparr> \<and>
     sync_step (sync p) ((\<lambda>i. 0)(Own_counter := 7)) Own_counter = 0 \<and>
     sync_step (sync p) ((\<lambda>i. 0)(Own_counter := 4)) Own_counter = 5"
proof -
  obtain p fr where ok: "PDM_init None (Bits 3) 0 PNone False = Inr (p, fr)"
    using PDM_init_succeeds [where bod = "Bits 3" and dd = 0 and csr = False and counter = PNone and out = None] by auto
  have wf: "well_formed None (Bits 3) PNone"
    by (simp add: well_formed_def)
  have loc: "nat (l_bits fr) = 3"
    using PDM_init_locals(6) [OF ok] by simp
  from own_counter_increments [OF ok wf loc [symmetric], of "(\<lambda>i. 0)(Own_counter := 7)"]
  have 1: "l_counter fr = \<lparr>duid = Own_counter, nbits = 3, reset = 0, reset_less = True\<rparr>"
    and 2: "sync_step (sync p) ((\<lambda>i. 0)(Own_counter := 7)) Own_counter = 0"
    by simp_all
  from own_counter_increments [OF ok wf loc [symmetric], of "(\<lambda>i. 0)(Own_counter := 4)"]
  have 3: "sync_step (sync p) ((\<lambda>i. 0)(Own_counter := 4)) Own_counter = 5"
    by simp
  from ok wf 1 2 3 show ?thesis by blast
qed

text \<open>
  C6. With a duty signal from the caller, construction fails with a \<open>ValueError\<close> when
  \<open>default_duty\<close> is not 0, and fails with a \<open>ValueError\<close> when \<open>with_csr\<close> is set. The
  errors are results of the constructor; the clock edge \<open>sync_step\<close> of a constructed
  core has no error result.
\<close>

theorem external_duty_refuses_default_and_csr:
  "(dd \<noteq> 0 \<longrightarrow> PDM_init out (Duty s) dd counter csr =
       Inl (ValueError ''default_duty can not be set when external duty is supplied'')) \<and>
   (dd = 0 \<and> csr \<longrightarrow> PDM_init out (Duty s) dd counter csr =
       Inl (ValueError ''with_csr can not be set when external duty is supplied'')) \<and>
   (csr \<longrightarrow> (\<exists>m. PDM_init out (Duty s) dd counter csr = Inl (ValueError m)))"
proof -
  obtain s1 o1 where o: "init_out \<lparr>attrs = Map.empty, sync = [], specials = []\<rparr> out = Inr (s1, o1)"
    using init_out_total by blast
  have 1: "PDM_init out (Duty s) dd counter csr =
       Inl (ValueError ''default_duty can not be set when external duty is supplied'')" if "dd \<noteq> 0"
    using that o by (simp add: PDM_init_def init_duty_def)
  have 2: "PDM_init out (Duty s) dd counter csr =
       Inl (ValueError ''with_csr can not be set when external duty is supplied'')" if "dd = 0" "csr"
    using that o by (simp add: PDM_init_def init_duty_def)
  from 1 2 show ?thesis by (cases "dd = 0") auto
qed

theorem external_duty_refuses_default_and_csr_witness:
  "PDM_init None (Duty \<lparr>duid = External 0, nbits = 8, reset = 0, reset_less = False\<rparr>) 5 PNone False =
       Inl (ValueError ''default_duty can not be set when external duty is supplied'') \<and>
   PDM_init None (Duty \<lparr>duid = External 0, nbits = 8, reset = 0, reset_less = False\<rparr>) 0 PNone True =
       Inl (ValueError ''with_csr can not be set when external duty is supplied'')"
  using external_duty_refuses_default_and_csr [of 5 None
      "\<lparr>duid = External 0, nbits = 8, reset = 0, reset_less = False\<rparr>" PNone False]
    external_duty_refuses_default_and_csr [of 0 None
      "\<lparr>duid = External 0, nbits = 8, reset = 0, reset_less = False\<rparr>" PNone True]
  by simp

text \<open>
  C7, as a counterexample to the claim as it is worded. The counter given is a signal as
  wide as the duty, and construction fails all the same, on the check of \<open>with_csr\<close>
  that comes before the counter is looked at. And with an integer width of 0 and a
  counter that is not a signal, construction fails before the counter is looked at, with
  the \<open>TypeError\<close> of Migen's \<^verbatim>\<open>Constant\<close> and not with a \<open>ValueError\<close>.
\<close>

theorem external_counter_accepted_construction_fails:
  "PDM_init None
     (Duty \<lparr>duid = External 0, nbits = 8, reset = 0, reset_less = False\<rparr>) 0
     (PSig \<lparr>duid = External 1, nbits = 8, reset = 0, reset_less = False\<rparr>) True =
   Inl (ValueError ''with_csr can not be set when external duty is supplied'') \<and>
   PDM_init None (Bits 0) 0 (PInt 5) False =
   Inl (TypeError ''Width must be a strictly positive integer'')"
proof -
  obtain s1 o1 where "init_out \<lparr>attrs = Map.empty, sync = [], specials = []\<rparr> None = Inr (s1, o1)"
    using init_out_total by blast
  then show ?thesis by (simp add: PDM_init_def init_duty_def Signal_new_def)
qed

text \<open>
  C7, amended. With a counter from the caller, construction fails when the counter is
  not a signal, and fails when its width is less than \<open>bits\<close>. The failure is a
  \<open>ValueError\<close>, except for an integer width that is not positive, which fails with
  the \<open>TypeError\<close> of the duty signal's width before the counter is looked at; a
  counter narrower than \<open>bits\<close> always gives a \<open>ValueError\<close>. When the counter is a
  signal at least \<open>bits\<close> wide and the duty configuration is accepted (an integer width
  that is positive, or a duty signal with neither \<open>default_duty\<close> nor \<open>with_csr\<close>),
  construction succeeds with that signal as \<open>self.counter\<close>, and the core adds no
  statement that writes it.
\<close>

theorem external_counter_checked:
  assumes "counter \<noteq> PNone"
    and "bits = (case bod of Bits b \<Rightarrow> b | Duty s \<Rightarrow> int (nbits s))"
  shows "((\<forall>c. counter \<noteq> PSig c) \<longrightarrow>
        (\<exists>err. PDM_init out bod dd counter csr = Inl err) \<and>
        ((\<forall>b. bod = Bits b \<longrightarrow> 0 < b) \<longrightarrow>
           (\<exists>m. PDM_init out bod dd counter csr = Inl (ValueError m))) \<and>
        (\<forall>b. bod = Bits b \<and> b \<le> 0 \<longrightarrow>
           PDM_init out bod dd counter csr =
             Inl (TypeError ''Width must be a strictly positive integer''))) \<and>
    (\<forall>c. counter = PSig c \<and> int (nbits c) < bits \<longrightarrow>
        (\<exists>m. PDM_init out bod dd counter csr = Inl (ValueError m))) \<and>
    (\<forall>c. counter = PSig c \<and> bits \<le> int (nbits c) \<and>
         (case bod of Bits b \<Rightarrow> 0 < b | Duty s \<Rightarrow> dd = 0 \<and> \<not> csr) \<longrightarrow>
        (\<exists>p fr. PDM_init out bod dd counter csr = Inr (p, fr) \<and> l_counter fr = c \<and>
           attrs p ''counter'' = Some (PSig c) \<and>
           (\<forall>e. duid c \<noteq> duid (l_out fr) \<longrightarrow> sync_step (sync p) e (duid c) = e (duid c))))"
proof -
  have kind: "(\<exists>m. err = ValueError m) \<or>
      err = TypeError ''Width must be a strictly positive integer'' \<and> (\<exists>b. bod = Bits b \<and> b \<le> 0)"
    if "PDM_init out bod dd counter csr = Inl err" for err
    using PDM_init_error [OF that] assms(1) by (cases bod) auto
  have bits_ok: "l_bits fr = bits" if ok: "PDM_init out bod dd counter csr = Inr (p, fr)" for p fr
  proof (cases bod)
    case (Bits b)
    from PDM_init_locals(6) [OF ok Bits] show ?thesis by (simp add: assms(2) Bits)
  next
    case (Duty s)
    from PDM_init_locals(1,5) [OF ok] Duty show ?thesis by (simp add: assms(2))
  qed
  have part1: "(\<exists>err. PDM_init out bod dd counter csr = Inl err) \<and>
        ((\<forall>b. bod = Bits b \<longrightarrow> 0 < b) \<longrightarrow>
           (\<exists>m. PDM_init out bod dd counter csr = Inl (ValueError m))) \<and>
        (\<forall>b. bod = Bits b \<and> b \<le> 0 \<longrightarrow>
           PDM_init out bod dd counter csr =
             Inl (TypeError ''Width must be a strictly positive integer''))"
    if none: "\<forall>c. counter \<noteq> PSig c"
  proof -
    have fails: "\<exists>err. PDM_init out bod dd counter csr = Inl err"
    proof (cases "PDM_init out bod dd counter csr")
      case (Inl err)
      then show ?thesis by simp
    next
      case (Inr r)
      obtain p fr where "r = (p, fr)" by (cases r)
      with Inr have "counter = PSig (l_counter fr)"
        using assms(1) by (simp add: PDM_init_locals(8))
      with none show ?thesis by simp
    qed
    then obtain err where err: "PDM_init out bod dd counter csr = Inl err" by blast
    have "\<exists>m. PDM_init out bod dd counter csr = Inl (ValueError m)"
      if "\<forall>b. bod = Bits b \<longrightarrow> 0 < b"
      using kind [OF err] err that by auto
    moreover have "PDM_init out bod dd counter csr =
        Inl (TypeError ''Width must be a strictly positive integer'')"
      if "bod = Bits b \<and> b \<le> 0" for b
    proof -
      obtain s1 o1 where "init_out \<lparr>attrs = Map.empty, sync = [], specials = []\<rparr> out = Inr (s1, o1)"
        using init_out_total by blast
      with that show ?thesis by (simp add: PDM_init_def init_duty_def Signal_new_def)
    qed
    ultimately show ?thesis using fails by blast
  qed
  have part2: "\<exists>m. PDM_init out bod dd counter csr = Inl (ValueError m)"
    if narrow: "counter = PSig c \<and> int (nbits c) < bits" for c
  proof (cases "PDM_init out bod dd counter csr")
    case (Inl err)
    from narrow have "0 < bits" by simp
    then have "\<not> (\<exists>b. bod = Bits b \<and> b \<le> 0)"
      by (auto simp add: assms(2))
    with kind [OF Inl] Inl show ?thesis by auto
  next
    case (Inr r)
    obtain p fr where r: "r = (p, fr)" by (cases r)
    from Inr r have ok: "PDM_init out bod dd counter csr = Inr (p, fr)" by simp
    have "counter = PSig (l_counter fr)"
      using assms(1) by (rule PDM_init_locals(8) [OF ok])
    with narrow have c: "l_counter fr = c" by simp
    from PDM_init_locals(2) [OF ok] c narrow bits_ok [OF ok] show ?thesis by simp
  qed
  have part3: "\<exists>p fr. PDM_init out bod dd counter csr = Inr (p, fr) \<and> l_counter fr = c \<and>
           attrs p ''counter'' = Some (PSig c) \<and>
           (\<forall>e. duid c \<noteq> duid (l_out fr) \<longrightarrow> sync_step (sync p) e (duid c) = e (duid c))"
    if wide: "counter = PSig c \<and> bits \<le> int (nbits c) \<and>
         (case bod of Bits b \<Rightarrow> 0 < b | Duty s \<Rightarrow> dd = 0 \<and> \<not> csr)" for c
  proof -
    have "\<exists>p fr. PDM_init out bod dd counter csr = Inr (p, fr)"
    proof (rule PDM_init_succeeds)
      show "case bod of Duty d \<Rightarrow> dd = 0 \<and> \<not> csr | Bits b \<Rightarrow> 0 < b"
        using wide by (simp split: bits_or_duty.splits)
      show "case counter of PNone \<Rightarrow> (case bod of Duty d \<Rightarrow> 0 < nbits d | Bits b \<Rightarrow> True)
             | PSig c \<Rightarrow> (case bod of Duty d \<Rightarrow> nbits d | Bits b \<Rightarrow> nat b) \<le> nbits c
             | _ \<Rightarrow> False"
        using wide assms(2) by (auto split: bits_or_duty.splits)
    qed
    then obtain p fr where ok: "PDM_init out bod dd counter csr = Inr (p, fr)" by blast
    have "counter = PSig (l_counter fr)"
      using assms(1) by (rule PDM_init_locals(8) [OF ok])
    with wide have c: "l_counter fr = c" by simp
    have a: "attrs p ''counter'' = Some (PSig c)"
      using PDM_init_attrs(1) [OF ok] c by simp
    from PDM_init_sync [OF ok] assms(1) obtain r where
      "sync p = [If_Else (lt r (sig (l_duty fr))) [eq_stmt (l_out fr) (Constant 1)] [eq_stmt (l_out fr) (Constant 0)]]"
      by auto
    then have "\<forall>e. duid c \<noteq> duid (l_out fr) \<longrightarrow> sync_step (sync p) e (duid c) = e (duid c)"
      by (simp add: comparator_frame)
    with ok c a show ?thesis by blast
  qed
  from part1 part2 part3 show ?thesis by blast
qed

theorem external_counter_checked_witness:
  "(\<exists>m. PDM_init None (Bits 8) 0 (PInt 5) False = Inl (ValueError m)) \<and>
   PDM_init None (Bits 0) 0 (PInt 5) False =
     Inl (TypeError ''Width must be a strictly positive integer'') \<and>
   (\<exists>m. PDM_init None (Bits 8) 0
      (PSig \<lparr>duid = External 1, nbits = 7, reset = 0, reset_less = False\<rparr>) False = Inl (ValueError m)) \<and>
   (\<exists>p fr. PDM_init None (Bits 8) 0
      (PSig \<lparr>duid = External 1, nbits = 8, reset = 0, reset_less = False\<rparr>) False = Inr (p, fr) \<and>
      l_counter fr = \<lparr>duid = External 1, nbits = 8, reset = 0, reset_less = False\<rparr> \<and>
      attrs p ''counter'' = Some (PSig \<lparr>duid = External 1, nbits = 8, reset = 0, reset_less = False\<rparr>))"
proof -
  have 1: "\<exists>m. PDM_init None (Bits 8) 0 (PInt 5) False = Inl (ValueError m)"
    using external_counter_checked [where counter = "PInt 5" and bod = "Bits 8" and bits = 8
        and out = None and dd = 0 and csr = False]
    by simp
  have 2: "PDM_init None (Bits 0) 0 (PInt 5) False =
      Inl (TypeError ''Width must be a strictly positive integer'')"
    using external_counter_checked [where counter = "PInt 5" and bod = "Bits 0" and bits = 0
        and out = None and dd = 0 and csr = False]
    by simp
  have 3: "\<exists>m. PDM_init None (Bits 8) 0
      (PSig \<lparr>duid = External 1, nbits = 7, reset = 0, reset_less = False\<rparr>) False = Inl (ValueError m)"
    using external_counter_checked [where counter = "PSig \<lparr>duid = External 1, nbits = 7, reset = 0, reset_less = False\<rparr>"
        and bod = "Bits 8" and bits = 8 and out = None and dd = 0 and csr = False]
    by simp
  have 4: "\<exists>p fr. PDM_init None (Bits 8) 0
      (PSig \<lparr>duid = External 1, nbits = 8, reset = 0, reset_less = False\<rparr>) False = Inr (p, fr) \<and>
      l_counter fr = \<lparr>duid = External 1, nbits = 8, reset = 0, reset_less = False\<rparr> \<and>
      attrs p ''counter'' = Some (PSig \<lparr>duid = External 1, nbits = 8, reset = 0, reset_less = False\<rparr>)"
    using external_counter_checked [where counter = "PSig \<lparr>duid = External 1, nbits = 8, reset = 0, reset_less = False\<rparr>"
        and bod = "Bits 8" and bits = 8 and out = None and dd = 0 and csr = False]
    by auto
  from 1 2 3 4 show ?thesis by blast
qed

text \<open>
  C8, on the code as it is. With \<open>with_csr\<close> the core holds one synchronizer: its input
  is the storage of the CSR register (of width \<open>bits\<close>, reset value \<open>default_duty\<close>)
  and its output is the duty signal the comparator reads. Its depth is 2 in every
  construction: what \<^verbatim>\<open>add_csr\<close> reads from \<^verbatim>\<open>self.sync\<close> is a proxy object, never the
  string \<^verbatim>\<open>"sys"\<close>, so the branch with depth 0 is not taken, although the statements of
  the comparator are filed under the clock domain \<^verbatim>\<open>"sys"\<close> of the register interface.
\<close>

theorem csr_synchronizer_depth_two:
  assumes "PDM_init out bod dd counter True = Inr (p, fr)"
    and "well_formed out bod counter"
  shows "\<exists>st. attrs p ''_duty'' = Some (PCsr st) \<and>
      csr_size st = nat (l_bits fr) \<and> nbits (storage st) = nat (l_bits fr) \<and> reset (storage st) = dd \<and>
      specials p = [\<lparr>mr_i = storage st, mr_o = l_duty fr, mr_n = 2\<rparr>] \<and>
      (\<forall>e. sync_step (sync p) e (duid (l_out fr)) =
         (if bitreverse (e (duid (l_counter fr))) (nat (l_bits fr)) < e (duid (l_duty fr)) then 1 else 0))"
proof -
  note w = PDM_init_well_formed [OF assms]
  define st where "st = \<lparr>csr_size = nat (l_bits fr),
      storage = \<lparr>duid = Csr_storage, nbits = nat (l_bits fr), reset = dd, reset_less = True\<rparr>\<rparr>"
  from PDM_init_attrs(4) [OF assms(1)] have
    "attrs p ''_duty'' = Some (PCsr st)"
    "specials p = [\<lparr>mr_i = storage st, mr_o = l_duty fr, mr_n = 2\<rparr>]"
    by (simp_all add: st_def)
  moreover have "csr_size st = nat (l_bits fr)" "nbits (storage st) = nat (l_bits fr)"
    "reset (storage st) = dd"
    by (simp_all add: st_def)
  moreover have "\<forall>e. sync_step (sync p) e (duid (l_out fr)) =
         (if bitreverse (e (duid (l_counter fr))) (nat (l_bits fr)) < e (duid (l_duty fr)) then 1 else 0)"
    by (simp only: PDM_init_step_out [OF assms(1) w(1,2)] simp_thms)
  ultimately show ?thesis by blast
qed

theorem csr_synchronizer_depth_two_witness:
  "\<exists>p fr st. PDM_init None (Bits 8) 5 PNone True = Inr (p, fr) \<and>
      well_formed None (Bits 8) PNone \<and> attrs p ''_duty'' = Some (PCsr st) \<and>
      specials p = [\<lparr>mr_i = storage st, mr_o = l_duty fr, mr_n = 2\<rparr>] \<and>
      map mr_n (specials p) \<noteq> [0]"
proof -
  have wf: "well_formed None (Bits 8) PNone"
    by (simp add: well_formed_def)
  obtain p fr where ok: "PDM_init None (Bits 8) 5 PNone True = Inr (p, fr)"
    using PDM_init_succeeds [where bod = "Bits 8" and dd = 5 and csr = True and counter = PNone and out = None] by auto
  from csr_synchronizer_depth_two [OF ok wf] obtain st where
    "attrs p ''_duty'' = Some (PCsr st)"
    "specials p = [\<lparr>mr_i = storage st, mr_o = l_duty fr, mr_n = 2\<rparr>]"
    by auto
  moreover from this have "map mr_n (specials p) \<noteq> [0]" by simp
  ultimately show ?thesis using ok wf by blast
qed

text \<open>
  C9. After a construction with \<open>with_csr\<close> the attribute \<open>duty\<close> is \<open>None\<close>: it no
  longer names the duty signal of the comparator, which is kept as \<open>_duty_csr\<close>. That
  signal is the output of the synchronizer fed by the CSR register, and no synchronous
  statement of the core writes it.
\<close>

theorem csr_clears_duty_attribute:
  assumes "PDM_init out bod dd counter True = Inr (p, fr)"
    and "well_formed out bod counter"
  shows "attrs p ''duty'' = Some PNone \<and> attrs p ''duty'' \<noteq> Some (PSig (l_duty fr)) \<and>
    attrs p ''_duty_csr'' = Some (PSig (l_duty fr)) \<and>
    (\<exists>st. attrs p ''_duty'' = Some (PCsr st) \<and>
       map mr_i (specials p) = [storage st] \<and> map mr_o (specials p) = [l_duty fr]) \<and>
    (\<forall>e. sync_step (sync p) e (duid (l_duty fr)) = e (duid (l_duty fr))) \<and>
    (\<forall>e. sync_step (sync p) e (duid (l_out fr)) =
       (if bitreverse (e (duid (l_counter fr))) (nat (l_bits fr)) < e (duid (l_duty fr)) then 1 else 0))"
proof -
  note w = PDM_init_well_formed [OF assms]
  note a = PDM_init_attrs(4) [OF assms(1)]
  have bod: "\<exists>b. bod = Bits b"
    using PDM_init_locals(5) [OF assms(1)] by (cases bod) auto
  then have d: "duid (l_duty fr) = Own_duty"
    using PDM_init_locals(6) [OF assms(1)] by auto
  have frame: "sync_step (sync p) e (duid (l_duty fr)) = e (duid (l_duty fr))" for e
  proof (cases "counter = PNone")
    case True
    with assms(1) have ok: "PDM_init out bod dd PNone True = Inr (p, fr)" by simp
    show ?thesis
      unfolding PDM_init_step_own [OF ok w(1)] using w(4) by (simp add: d)
  next
    case False
    show ?thesis
      unfolding PDM_init_step_ext [OF assms(1) False w(1,2)] using w(4) by (simp add: d)
  qed
  have "\<forall>e. sync_step (sync p) e (duid (l_out fr)) =
       (if bitreverse (e (duid (l_counter fr))) (nat (l_bits fr)) < e (duid (l_duty fr)) then 1 else 0)"
    by (simp only: PDM_init_step_out [OF assms(1) w(1,2)] simp_thms)
  with a frame show ?thesis by simp
qed

theorem csr_clears_duty_attribute_witness:
  "\<exists>p fr. PDM_init None (Bits 8) 5 PNone True = Inr (p, fr) \<and>
      well_formed None (Bits 8) PNone \<and> attrs p ''duty'' = Some PNone \<and>
      attrs p ''_duty_csr'' = Some (PSig \<lparr>duid = Own_duty, nbits = 8, reset = 5, reset_less = False\<rparr>) \<and>
      map mr_o (specials p) = [\<lparr>duid = Own_duty, nbits = 8, reset = 5, reset_less = False\<rparr>]"
proof -
  have wf: "well_formed None (Bits 8) PNone"
    by (simp add: well_formed_def)
  obtain p fr where ok: "PDM_init None (Bits 8) 5 PNone True = Inr (p, fr)"
    using PDM_init_succeeds [where bod = "Bits 8" and dd = 5 and csr = True and counter = PNone and out = None] by auto
  have d: "l_duty fr = \<lparr>duid = Own_duty, nbits = 8, reset = 5, reset_less = False\<rparr>"
    using PDM_init_locals(6) [OF ok] by simp
  from csr_clears_duty_attribute [OF ok wf] have
    "attrs p ''duty'' = Some PNone"
    "attrs p ''_duty_csr'' = Some (PSig \<lparr>duid = Own_duty, nbits = 8, reset = 5, reset_less = False\<rparr>)"
    "map mr_o (specials p) = [\<lparr>duid = Own_duty, nbits = 8, reset = 5, reset_less = False\<rparr>]"
    by (auto simp add: d)
  with ok wf show ?thesis by (intro exI [of _ p] exI [of _ fr] conjI)
qed

text \<open>
  C10. When the caller gives the output signal, the comparator drives that signal at
  every clock edge and the object gets no attribute \<open>out\<close>; the attribute \<open>out\<close> is
  there exactly when the output signal was left out, and then it is the signal the core
  made.
\<close>

theorem supplied_out_is_no_attribute:
  assumes "PDM_init out bod dd counter csr = Inr (p, fr)"
    and "well_formed out bod counter"
  shows "(\<forall>s. out = Some s \<longrightarrow> l_out fr = s \<and> attrs p ''out'' = None \<and>
        (\<forall>e. sync_step (sync p) e (duid s) =
           (if bitreverse (e (duid (l_counter fr))) (nat (l_bits fr)) < e (duid (l_duty fr)) then 1 else 0))) \<and>
    (attrs p ''out'' \<noteq> None \<longleftrightarrow> out = None) \<and>
    (out = None \<longrightarrow> attrs p ''out'' = Some (PSig (l_out fr)) \<and> duid (l_out fr) = Own_out)"
proof -
  note w = PDM_init_well_formed [OF assms]
  have drive: "\<forall>e. sync_step (sync p) e (duid (l_out fr)) =
       (if bitreverse (e (duid (l_counter fr))) (nat (l_bits fr)) < e (duid (l_duty fr)) then 1 else 0)"
    by (simp only: PDM_init_step_out [OF assms(1) w(1,2)] simp_thms)
  show ?thesis
  proof (cases out)
    case None
    with PDM_init_attrs(2) [OF assms(1)] PDM_init_locals(3) [OF assms(1)] show ?thesis by simp
  next
    case (Some s)
    with PDM_init_locals(4) [OF assms(1)] have "l_out fr = s" by simp
    with PDM_init_attrs(2) [OF assms(1)] Some drive show ?thesis by simp
  qed
qed

theorem supplied_out_is_no_attribute_witness:
  "(\<exists>p fr. PDM_init (Some \<lparr>duid = External 0, nbits = 1, reset = 0, reset_less = False\<rparr>)
        (Bits 3) 0 PNone False = Inr (p, fr) \<and>
      well_formed (Some \<lparr>duid = External 0, nbits = 1, reset = 0, reset_less = False\<rparr>) (Bits 3) PNone \<and>
      attrs p ''out'' = None \<and>
      sync_step (sync p) ((\<lambda>i. 0)(Own_counter := 6, Own_duty := 4)) (External 0) = 1) \<and>
   (\<exists>p fr. PDM_init None (Bits 3) 0 PNone False = Inr (p, fr) \<and>
      well_formed None (Bits 3) PNone \<and>
      attrs p ''out'' = Some (PSig \<lparr>duid = Own_out, nbits = 1, reset = 0, reset_less = False\<rparr>))"
proof -
  let ?s = "\<lparr>duid = External 0, nbits = 1, reset = 0, reset_less = False\<rparr>"
  have wf: "well_formed (Some ?s) (Bits 3) PNone" and wf': "well_formed None (Bits 3) PNone"
    by (simp_all add: well_formed_def supplied_def)
  obtain p fr where ok: "PDM_init (Some ?s) (Bits 3) 0 PNone False = Inr (p, fr)"
    using PDM_init_succeeds [where bod = "Bits 3" and dd = 0 and csr = False and counter = PNone and out = "Some ?s"] by auto
  obtain p' fr' where ok': "PDM_init None (Bits 3) 0 PNone False = Inr (p', fr')"
    using PDM_init_succeeds [where bod = "Bits 3" and dd = 0 and csr = False and counter = PNone and out = None] by auto
  have loc: "l_bits fr = 3" "duid (l_counter fr) = Own_counter" "duid (l_duty fr) = Own_duty"
    using PDM_init_locals(6,7) [OF ok] by simp_all
  have rv: "bitreverse 6 3 = 3"
    by (simp add: bitreverse_def lessThan_nat_numeral lessThan_Suc bit_numeral_simps numeral_3_eq_3)
  from supplied_out_is_no_attribute [OF ok wf] have
    "attrs p ''out'' = None"
    "sync_step (sync p) ((\<lambda>i. 0)(Own_counter := 6, Own_duty := 4)) (External 0) = 1"
    by (simp_all add: loc rv)
  moreover from supplied_out_is_no_attribute [OF ok' wf'] PDM_init_locals(3) [OF ok'] have
    "attrs p' ''out'' = Some (PSig \<lparr>duid = Own_out, nbits = 1, reset = 0, reset_less = False\<rparr>)"
    by simp
  ultimately show ?thesis using ok ok' wf wf' by blast
qed

end
